theory Spec2Isabelle
  imports Main
begin

section \<open>Data model\<close>

text \<open>
  Go strings are byte sequences; \<^typ>\<open>string\<close> is a list of 8-bit characters, so a Go
  \<^verbatim>\<open>string\<close> is a \<^typ>\<open>string\<close> and a Go \<^verbatim>\<open>byte\<close> is a \<^typ>\<open>char\<close>. A \<^verbatim>\<open>rune\<close> is an
  \<^typ>\<open>int\<close>.
\<close>

datatype TokenType =
    TokenEOF | TokenLeftBrace | TokenRightBrace | TokenLeftBracket | TokenRightBracket
  | TokenColon | TokenComma | TokenString | TokenNumber | TokenTrue | TokenFalse | TokenNull

record Token =
  Type :: TokenType
  Value :: string
  Pos :: int

record Lexer =
  input :: string
  pos :: nat
  ch :: char

text \<open>
  An \<^verbatim>\<open>error\<close> built by \<^verbatim>\<open>fmt.Errorf\<close> carries its message and nothing else. The error of
  \<^verbatim>\<open>strconv.ParseFloat\<close> is a \<^verbatim>\<open>*strconv.NumError\<close> with the text that was converted and the
  reason.
\<close>

datatype error = Errorf string | NumError string string

text \<open>
  The result of a parse is a Go \<^verbatim>\<open>interface{}\<close> holding a \<^verbatim>\<open>map[string]interface{}\<close>, a
  \<^verbatim>\<open>[]interface{}\<close>, a \<^verbatim>\<open>string\<close>, a \<^verbatim>\<open>float64\<close>, a \<^verbatim>\<open>bool\<close> or \<^verbatim>\<open>nil\<close>. The type
  \<^typ>\<open>'f\<close> stands for \<^verbatim>\<open>float64\<close>.
\<close>

datatype 'f val =
    Object "string \<Rightarrow> 'f val option"
  | Array "'f val list"
  | String string
  | Number 'f
  | Boolean bool
  | Null

record Parser =
  lexer :: Lexer
  curToken :: Token

section \<open>Library functions the code calls\<close>

text \<open>
  \<^verbatim>\<open>unicode.IsDigit\<close> and \<^verbatim>\<open>unicode.IsLetter\<close> on \<^verbatim>\<open>rune(b)\<close> for a byte \<^verbatim>\<open>b\<close>: the code
  points below 256 that are decimal digits, and those that are letters (Latin-1).
\<close>

definition IsDigit :: "char \<Rightarrow> bool" where
  "IsDigit c \<longleftrightarrow> (48::nat) \<le> of_char c \<and> (of_char c :: nat) \<le> 57"

definition IsLetter :: "char \<Rightarrow> bool" where
  "IsLetter c \<longleftrightarrow>
     (let n = (of_char c :: nat) in
        (65 \<le> n \<and> n \<le> 90) \<or> (97 \<le> n \<and> n \<le> 122) \<or> n = 170 \<or> n = 181 \<or> n = 186
        \<or> (192 \<le> n \<and> n \<le> 214) \<or> (216 \<le> n \<and> n \<le> 246) \<or> (248 \<le> n \<and> n \<le> 255))"

text \<open>
  The conversion \<^verbatim>\<open>string(r)\<close> of a rune, which is also what \<^verbatim>\<open>%c\<close> prints: the UTF-8
  encoding of the code point, and that of U+FFFD for a value that is no code point
  (negative, a surrogate, or above U+10FFFF).
\<close>

definition EncodeRune :: "int \<Rightarrow> string" where
  "EncodeRune r =
     (if r < 0 \<or> 0x10FFFF < r \<or> (0xD800 \<le> r \<and> r \<le> 0xDFFF)
        then [CHR 0xEF, CHR 0xBF, CHR 0xBD]
      else if r < 0x80 then [char_of r]
      else if r < 0x800 then [char_of (0xC0 + r div 64), char_of (0x80 + r mod 64)]
      else if r < 0x10000 then
        [char_of (0xE0 + r div 4096), char_of (0x80 + (r div 64) mod 64),
         char_of (0x80 + r mod 64)]
      else
        [char_of (0xF0 + r div 262144), char_of (0x80 + (r div 4096) mod 64),
         char_of (0x80 + (r div 64) mod 64), char_of (0x80 + r mod 64)])"

text \<open>
  \<^verbatim>\<open>strconv.ParseInt(s, 16, 32)\<close>: an optional sign, then one or more hexadecimal digits
  and nothing else; \<open>None\<close> is a non-nil error (a syntax error, or a value outside the
  32-bit range).
\<close>

definition hexval :: "char \<Rightarrow> int option" where
  "hexval c =
     (let n = (of_char c :: int) in
        if 48 \<le> n \<and> n \<le> 57 then Some (n - 48)
        else if 97 \<le> n \<and> n \<le> 102 then Some (n - 87)
        else if 65 \<le> n \<and> n \<le> 70 then Some (n - 55)
        else None)"

fun ParseUint16 :: "int \<Rightarrow> string \<Rightarrow> int option" where
  "ParseUint16 acc [] = Some acc"
| "ParseUint16 acc (c # cs) =
     (case hexval c of None \<Rightarrow> None | Some d \<Rightarrow> ParseUint16 (acc * 16 + d) cs)"

definition ParseInt16 :: "string \<Rightarrow> int option" where
  "ParseInt16 s =
     (case s of
        [] \<Rightarrow> None
      | c # cs \<Rightarrow>
          (let neg = (c = CHR ''-'');
               ds = (if c = CHR ''+'' \<or> c = CHR ''-'' then cs else s)
           in if ds = [] then None
              else (case ParseUint16 0 ds of
                      None \<Rightarrow> None
                    | Some un \<Rightarrow>
                        if \<not> neg \<and> 2147483648 \<le> un then None
                        else if neg \<and> 2147483648 < un then None
                        else Some (if neg then - un else un))))"

text \<open>How \<^verbatim>\<open>%v\<close> prints a \<^verbatim>\<open>TokenType\<close>: the type is an \<^verbatim>\<open>int\<close> numbered by \<^verbatim>\<open>iota\<close>.\<close>

fun fmt_TokenType :: "TokenType \<Rightarrow> string" where
  "fmt_TokenType TokenEOF = ''0''"
| "fmt_TokenType TokenLeftBrace = ''1''"
| "fmt_TokenType TokenRightBrace = ''2''"
| "fmt_TokenType TokenLeftBracket = ''3''"
| "fmt_TokenType TokenRightBracket = ''4''"
| "fmt_TokenType TokenColon = ''5''"
| "fmt_TokenType TokenComma = ''6''"
| "fmt_TokenType TokenString = ''7''"
| "fmt_TokenType TokenNumber = ''8''"
| "fmt_TokenType TokenTrue = ''9''"
| "fmt_TokenType TokenFalse = ''10''"
| "fmt_TokenType TokenNull = ''11''"

text \<open>
  \<^verbatim>\<open>strconv.ParseFloat(s, 64)\<close> on a text without letters other than \<^verbatim>\<open>e\<close> and \<^verbatim>\<open>E\<close> and
  without underscores (\<^verbatim>\<open>readNumber\<close> returns no other text). Such a text is a number when
  it is an optional sign, digits with at most one point among them, at least one digit in
  all, and optionally an exponent: the letter, an optional sign, at least one digit. The
  result of the library is the \<^verbatim>\<open>float64\<close> nearest to the value of the text, and the error
  \<^verbatim>\<open>ErrRange\<close> when that is infinite, which is when the magnitude of the value is at least
  \<open>2^1024 - 2^970\<close>. \<open>ParseFloat\<close> returns the value of the text itself, \<open>m * 10^e\<close> as
  \<open>Decimal m e\<close> with \<open>m\<close> not a multiple of 10 (and zero as \<open>Decimal 0 0\<close>): the rounding
  to a \<^verbatim>\<open>float64\<close> and the sign of a zero are left out. Any other text is a syntax error
  here (the library also reads hexadecimal numbers, infinities and NaN, which have letters).
  The parser takes \<^verbatim>\<open>strconv.ParseFloat\<close> as a parameter \<open>pf\<close>, and \<open>ParseFloat\<close> is the
  instance of the closed examples: no general theorem depends on it.
\<close>

datatype decimal = Decimal int int

definition digits_val :: "string \<Rightarrow> int" where
  "digits_val ds = foldl (\<lambda>a c. 10 * a + (of_char c - 48)) 0 ds"

definition out_of_range :: "int \<Rightarrow> int \<Rightarrow> bool" where
  "out_of_range m e \<longleftrightarrow>
     (if 0 \<le> e then 2 ^ 1024 - 2 ^ 970 \<le> m * 10 ^ nat e
      else (2 ^ 1024 - 2 ^ 970) * 10 ^ nat (- e) \<le> m)"

definition ParseFloat :: "string \<Rightarrow> error + decimal" where
  "ParseFloat s =
     (let neg = (s \<noteq> [] \<and> hd s = CHR ''-'');
          s1 = (if s \<noteq> [] \<and> (hd s = CHR ''+'' \<or> hd s = CHR ''-'') then tl s else s);
          ip = takeWhile IsDigit s1;
          s2 = dropWhile IsDigit s1;
          point = (s2 \<noteq> [] \<and> hd s2 = CHR ''.'');
          fr = (if point then takeWhile IsDigit (tl s2) else []);
          s3 = (if point then dropWhile IsDigit (tl s2) else s2);
          expo = (s3 \<noteq> [] \<and> (hd s3 = CHR ''e'' \<or> hd s3 = CHR ''E''));
          s4 = (if expo then tl s3 else s3);
          eneg = (s4 \<noteq> [] \<and> hd s4 = CHR ''-'');
          s5 = (if s4 \<noteq> [] \<and> (hd s4 = CHR ''+'' \<or> hd s4 = CHR ''-'') then tl s4 else s4);
          ex = (if expo then takeWhile IsDigit s5 else []);
          s6 = (if expo then dropWhile IsDigit s5 else s3)
      in if ip @ fr = [] \<or> (expo \<and> ex = []) \<or> s6 \<noteq> [] then Inl (NumError s ''invalid syntax'')
         else
           (let sig = rev (dropWhile (\<lambda>c. c = CHR ''0'') (rev (ip @ fr)));
                m = digits_val sig;
                e = (if eneg then - digits_val ex else digits_val ex)
                    - int (length fr) + (int (length (ip @ fr)) - int (length sig))
            in if m = 0 then Inr (Decimal 0 0)
               else if out_of_range m e then Inl (NumError s ''value out of range'')
               else Inr (Decimal (if neg then - m else m) e)))"

section \<open>The lexer\<close>

definition readChar :: "Lexer \<Rightarrow> Lexer" where
  "readChar l =
     (let l' = (if length (input l) \<le> pos l then l\<lparr>ch := CHR 0x00\<rparr>
                else l\<lparr>ch := input l ! pos l\<rparr>)
      in l'\<lparr>pos := pos l' + 1\<rparr>)"

definition NewLexer :: "string \<Rightarrow> Lexer" where
  "NewLexer inp = readChar \<lparr>input = inp, pos = 0, ch = CHR 0x00\<rparr>"

definition peekChar :: "Lexer \<Rightarrow> char" where
  "peekChar l = (if length (input l) \<le> pos l then CHR 0x00 else input l ! pos l)"

text \<open>
  The measure of every loop of the lexer: the bytes not yet read, and one more while the
  current byte is not the end marker.
\<close>

definition todo :: "Lexer \<Rightarrow> nat" where
  "todo l = (length (input l) - pos l) + (if ch l = CHR 0x00 then 0 else 1)"

lemma input_readChar [simp]: "input (readChar l) = input l"
  by (simp add: readChar_def Let_def)

lemma pos_readChar [simp]: "pos (readChar l) = Suc (pos l)"
  by (simp add: readChar_def Let_def)

lemma todo_readChar_le: "todo (readChar l) \<le> length (input l) - pos l"
  by (auto simp: todo_def readChar_def Let_def)

lemma todo_readChar: "ch l \<noteq> CHR 0x00 \<Longrightarrow> todo (readChar l) < todo l"
  using todo_readChar_le [of l] by (simp add: todo_def)

function skipWhitespace :: "Lexer \<Rightarrow> Lexer" where
  "skipWhitespace l =
     (if ch l = CHR '' '' \<or> ch l = CHR 0x09 \<or> ch l = CHR 0x0A \<or> ch l = CHR 0x0D
      then skipWhitespace (readChar l) else l)"
  by pat_completeness auto
termination
  by (relation "measure todo") (auto intro!: todo_readChar)

declare skipWhitespace.simps [simp del]

text \<open>
  The inner loop of a \<^verbatim>\<open>\u\<close> escape: \<^verbatim>\<open>hex += string(l.ch); l.readChar()\<close>, four times,
  whatever the bytes are (beyond the end of the input they are the end marker).
\<close>

fun readHex :: "nat \<Rightarrow> string \<Rightarrow> Lexer \<Rightarrow> string \<times> Lexer" where
  "readHex 0 hex l = (hex, l)"
| "readHex (Suc i) hex l = readHex i (hex @ EncodeRune (of_char (ch l))) (readChar l)"

lemma input_readHex [simp]: "input (snd (readHex i hex l)) = input l"
  by (induction i hex l rule: readHex.induct) auto

lemma todo_readHex_le: "todo (snd (readHex i hex (readChar l))) \<le> length (input l) - pos l"
proof (induction i arbitrary: hex l)
  case 0
  show ?case by (simp add: todo_readChar_le)
next
  case (Suc i)
  have "todo (snd (readHex i (hex @ EncodeRune (of_char (ch (readChar l)))) (readChar (readChar l))))
          \<le> length (input (readChar l)) - pos (readChar l)"
    by (rule Suc.IH)
  then show ?case by simp
qed

lemma todo_readChar2: "ch l \<noteq> CHR 0x00 \<Longrightarrow> todo (readChar (readChar l)) < todo l"
  using todo_readChar_le [of "readChar l"] by (simp add: todo_def)

lemma todo_readHex_lt:
  "ch l \<noteq> CHR 0x00 \<Longrightarrow> todo (snd (readHex i hex (readChar (readChar l)))) < todo l"
  using todo_readHex_le [of i hex "readChar l"] by (simp add: todo_def)

text \<open>
  The loop of \<^verbatim>\<open>readString\<close>, with the runes collected so far. It stops at a closing
  quote or at the end marker with the runes, and at a bad escape with the error; the lexer
  is returned as the loop leaves it.
\<close>

function readString_loop :: "int list \<Rightarrow> Lexer \<Rightarrow> (error + int list) \<times> Lexer" where
  \<open>readString_loop result l =
     (if ch l \<noteq> CHR 0x22 \<and> ch l \<noteq> CHR 0x00 then
        (if ch l = CHR 0x5C then
           (if ch (readChar l) = CHR 0x22 \<or> ch (readChar l) = CHR 0x5C \<or> ch (readChar l) = CHR ''/''
              then readString_loop (result @ [of_char (ch (readChar l))]) (readChar (readChar l))
            else if ch (readChar l) = CHR ''b''
              then readString_loop (result @ [0x08]) (readChar (readChar l))
            else if ch (readChar l) = CHR ''f''
              then readString_loop (result @ [0x0C]) (readChar (readChar l))
            else if ch (readChar l) = CHR ''n''
              then readString_loop (result @ [0x0A]) (readChar (readChar l))
            else if ch (readChar l) = CHR ''r''
              then readString_loop (result @ [0x0D]) (readChar (readChar l))
            else if ch (readChar l) = CHR ''t''
              then readString_loop (result @ [0x09]) (readChar (readChar l))
            else if ch (readChar l) = CHR ''u''
              then (case ParseInt16 (fst (readHex 4 [] (readChar (readChar l)))) of
                      None \<Rightarrow>
                        (Inl (Errorf (''invalid unicode escape: ''
                                        @ fst (readHex 4 [] (readChar (readChar l))))),
                         snd (readHex 4 [] (readChar (readChar l))))
                    | Some v \<Rightarrow>
                        readString_loop (result @ [v]) (snd (readHex 4 [] (readChar (readChar l)))))
            else (Inl (Errorf (''invalid escape sequence: '' @ [CHR 0x5C]
                                 @ EncodeRune (of_char (ch (readChar l))))),
                  readChar l))
         else readString_loop (result @ [of_char (ch l)]) (readChar l))
      else (Inr result, l))\<close>
  by pat_completeness auto
termination
  by (relation "measure (\<lambda>(result, l). todo l)")
    (auto intro!: todo_readChar todo_readChar2 todo_readHex_lt)

declare readString_loop.simps [simp del]

definition readString :: "Lexer \<Rightarrow> (error + string) \<times> Lexer" where
  \<open>readString l =
     (case readString_loop [] (readChar l) of
        (Inl err, l') \<Rightarrow> (Inl err, l')
      | (Inr result, l') \<Rightarrow>
          if ch l' \<noteq> CHR 0x22 then (Inl (Errorf ''unterminated string''), l')
          else (Inr (concat (map EncodeRune result)), readChar l'))\<close>

lemma IsDigit_not_NUL: "IsDigit c \<Longrightarrow> c \<noteq> CHR 0x00"
  by (auto simp: IsDigit_def)

lemma IsLetter_not_NUL: "IsLetter c \<Longrightarrow> c \<noteq> CHR 0x00"
  by (auto simp: IsLetter_def)

function readDigits :: "Lexer \<Rightarrow> Lexer" where
  "readDigits l = (if IsDigit (ch l) then readDigits (readChar l) else l)"
  by pat_completeness auto
termination
  by (relation "measure todo") (auto intro!: todo_readChar IsDigit_not_NUL)

declare readDigits.simps [simp del]

function readLetters :: "Lexer \<Rightarrow> Lexer" where
  "readLetters l = (if IsLetter (ch l) then readLetters (readChar l) else l)"
  by pat_completeness auto
termination
  by (relation "measure todo") (auto intro!: todo_readChar IsLetter_not_NUL)

declare readLetters.simps [simp del]

text \<open>
  The slice \<^verbatim>\<open>s[a:b]\<close>. Go panics unless \<open>a \<le> b \<le> len(s)\<close>; the lexer only slices within
  these bounds (lemmas \<open>readNumber_bounds\<close> and \<open>readIdentifier_bounds\<close> below). The start
  \<^verbatim>\<open>l.pos - 1\<close> is not negative, since \<^verbatim>\<open>NewLexer\<close> has read one byte.
\<close>

definition slice :: "string \<Rightarrow> nat \<Rightarrow> nat \<Rightarrow> string" where
  "slice s a b = take (b - a) (drop a s)"

definition readNumber :: "Lexer \<Rightarrow> string \<times> Lexer" where
  "readNumber l =
     (let start = pos l - 1;
          l1 = (if ch l = CHR ''-'' then readChar l else l);
          l2 = (if ch l1 = CHR ''0'' then readChar l1 else readDigits l1);
          l3 = (if ch l2 = CHR ''.'' then readDigits (readChar l2) else l2);
          l4 = (if ch l3 = CHR ''e'' \<or> ch l3 = CHR ''E'' then
                  (let l' = readChar l3;
                       l'' = (if ch l' = CHR ''+'' \<or> ch l' = CHR ''-'' then readChar l' else l')
                   in readDigits l'')
                else l3)
      in (slice (input l4) start (pos l4 - 1), l4))"

definition readIdentifier :: "Lexer \<Rightarrow> string \<times> Lexer" where
  "readIdentifier l =
     (let start = pos l - 1; l' = readLetters l
      in (slice (input l') start (pos l' - 1), l'))"

definition NextToken :: "Lexer \<Rightarrow> (Token \<times> error option) \<times> Lexer" where
  \<open>NextToken l0 =
     (let l = skipWhitespace l0;
          tok = \<lparr>Type = TokenEOF, Value = [], Pos = int (pos l) - 1\<rparr>
      in if ch l = CHR 0x00 then ((tok\<lparr>Type := TokenEOF\<rparr>, None), l)
         else if ch l = CHR ''{'' then ((tok\<lparr>Type := TokenLeftBrace\<rparr>, None), readChar l)
         else if ch l = CHR ''}'' then ((tok\<lparr>Type := TokenRightBrace\<rparr>, None), readChar l)
         else if ch l = CHR ''['' then ((tok\<lparr>Type := TokenLeftBracket\<rparr>, None), readChar l)
         else if ch l = CHR '']'' then ((tok\<lparr>Type := TokenRightBracket\<rparr>, None), readChar l)
         else if ch l = CHR '':'' then ((tok\<lparr>Type := TokenColon\<rparr>, None), readChar l)
         else if ch l = CHR '','' then ((tok\<lparr>Type := TokenComma\<rparr>, None), readChar l)
         else if ch l = CHR 0x22 then
           (case readString l of
              (Inl err, l') \<Rightarrow> ((tok, Some err), l')
            | (Inr str, l') \<Rightarrow> ((tok\<lparr>Type := TokenString, Value := str\<rparr>, None), l'))
         else if ch l \<in> set ''-0123456789'' then
           (case readNumber l of
              (num, l') \<Rightarrow> ((tok\<lparr>Type := TokenNumber, Value := num\<rparr>, None), l'))
         else if IsLetter (ch l) then
           (case readIdentifier l of
              (ident, l') \<Rightarrow>
                if ident = ''true'' then ((tok\<lparr>Type := TokenTrue\<rparr>, None), l')
                else if ident = ''false'' then ((tok\<lparr>Type := TokenFalse\<rparr>, None), l')
                else if ident = ''null'' then ((tok\<lparr>Type := TokenNull\<rparr>, None), l')
                else ((tok, Some (Errorf (''unexpected identifier: '' @ ident))), l'))
         else ((tok, Some (Errorf (''unexpected character: '' @ EncodeRune (of_char (ch l))))), l))\<close>

section \<open>The parser\<close>

definition NewParser :: "string \<Rightarrow> error + Parser" where
  "NewParser inp =
     (case NextToken (NewLexer inp) of
        ((tok, Some err), l) \<Rightarrow> Inl err
      | ((tok, None), l) \<Rightarrow> Inr \<lparr>lexer = l, curToken = tok\<rparr>)"

definition advance :: "Parser \<Rightarrow> error option \<times> Parser" where
  "advance p =
     (case NextToken (lexer p) of
        ((tok, Some err), l) \<Rightarrow> (Some err, p\<lparr>lexer := l\<rparr>)
      | ((tok, None), l) \<Rightarrow> (None, p\<lparr>lexer := l, curToken := tok\<rparr>))"

text \<open>
  The three parsing functions call each other without a bound, and the two loops run until
  a closing token or an error: they are defined with fuel, one unit for each call and each
  turn of a loop, and \<open>None\<close> when it runs out. \<open>pf\<close> is \<^verbatim>\<open>strconv.ParseFloat(s, 64)\<close>,
  a function of the Go library. Where the code drops the error of \<^verbatim>\<open>p.advance()\<close>, the
  model takes the parser that \<open>advance\<close> leaves and drops the error as well.
\<close>

fun parseValue :: "(string \<Rightarrow> error + 'f) \<Rightarrow> nat \<Rightarrow> Parser \<Rightarrow> ((error + 'f val) \<times> Parser) option"
  and parseObject :: "(string \<Rightarrow> error + 'f) \<Rightarrow> nat \<Rightarrow> Parser
        \<Rightarrow> ((error + (string \<Rightarrow> 'f val option)) \<times> Parser) option"
  and parseObject_loop :: "(string \<Rightarrow> error + 'f) \<Rightarrow> nat \<Rightarrow> (string \<Rightarrow> 'f val option) \<Rightarrow> Parser
        \<Rightarrow> ((error + (string \<Rightarrow> 'f val option)) \<times> Parser) option"
  and parseArray :: "(string \<Rightarrow> error + 'f) \<Rightarrow> nat \<Rightarrow> Parser
        \<Rightarrow> ((error + 'f val list) \<times> Parser) option"
  and parseArray_loop :: "(string \<Rightarrow> error + 'f) \<Rightarrow> nat \<Rightarrow> 'f val list \<Rightarrow> Parser
        \<Rightarrow> ((error + 'f val list) \<times> Parser) option"
where
  "parseValue pf 0 p = None"
| "parseValue pf (Suc n) p =
     (case Type (curToken p) of
        TokenLeftBrace \<Rightarrow>
          (case parseObject pf n p of
             None \<Rightarrow> None
           | Some (Inl err, p') \<Rightarrow> Some (Inl err, p')
           | Some (Inr obj, p') \<Rightarrow> Some (Inr (Object obj), p'))
      | TokenLeftBracket \<Rightarrow>
          (case parseArray pf n p of
             None \<Rightarrow> None
           | Some (Inl err, p') \<Rightarrow> Some (Inl err, p')
           | Some (Inr arr, p') \<Rightarrow> Some (Inr (Array arr), p'))
      | TokenString \<Rightarrow> Some (Inr (String (Value (curToken p))), snd (advance p))
      | TokenNumber \<Rightarrow>
          (case pf (Value (curToken p)) of
             Inl err \<Rightarrow> Some (Inl err, p)
           | Inr v \<Rightarrow> Some (Inr (Number v), snd (advance p)))
      | TokenTrue \<Rightarrow> Some (Inr (Boolean True), snd (advance p))
      | TokenFalse \<Rightarrow> Some (Inr (Boolean False), snd (advance p))
      | TokenNull \<Rightarrow> Some (Inr Null, snd (advance p))
      | _ \<Rightarrow> Some (Inl (Errorf (''unexpected token: '' @ fmt_TokenType (Type (curToken p)))), p))"
| "parseObject pf 0 p = None"
| "parseObject pf (Suc n) p =
     (let p1 = snd (advance p)
      in if Type (curToken p1) = TokenRightBrace then Some (Inr Map.empty, snd (advance p1))
         else parseObject_loop pf n Map.empty p1)"
| "parseObject_loop pf 0 obj p = None"
| "parseObject_loop pf (Suc n) obj p =
     (if Type (curToken p) \<noteq> TokenString
        then Some (Inl (Errorf (''expected string key, got '' @ fmt_TokenType (Type (curToken p)))), p)
      else
        (let key = Value (curToken p); p1 = snd (advance p)
         in if Type (curToken p1) \<noteq> TokenColon
              then Some (Inl (Errorf ''expected colon after key''), p1)
            else
              (case parseValue pf n (snd (advance p1)) of
                 None \<Rightarrow> None
               | Some (Inl err, p2) \<Rightarrow> Some (Inl err, p2)
               | Some (Inr v, p2) \<Rightarrow>
                   if Type (curToken p2) = TokenRightBrace
                     then Some (Inr (obj(key \<mapsto> v)), snd (advance p2))
                   else if Type (curToken p2) \<noteq> TokenComma
                     then Some (Inl (Errorf ''expected comma or closing brace''), p2)
                   else parseObject_loop pf n (obj(key \<mapsto> v)) (snd (advance p2)))))"
| "parseArray pf 0 p = None"
| "parseArray pf (Suc n) p =
     (let p1 = snd (advance p)
      in if Type (curToken p1) = TokenRightBracket then Some (Inr [], snd (advance p1))
         else parseArray_loop pf n [] p1)"
| "parseArray_loop pf 0 arr p = None"
| "parseArray_loop pf (Suc n) arr p =
     (case parseValue pf n p of
        None \<Rightarrow> None
      | Some (Inl err, p2) \<Rightarrow> Some (Inl err, p2)
      | Some (Inr v, p2) \<Rightarrow>
          if Type (curToken p2) = TokenRightBracket
            then Some (Inr (arr @ [v]), snd (advance p2))
          else if Type (curToken p2) \<noteq> TokenComma
            then Some (Inl (Errorf ''expected comma or closing bracket''), p2)
          else parseArray_loop pf n (arr @ [v]) (snd (advance p2)))"

text \<open>
  \<^verbatim>\<open>Parse\<close>, the public entry: \<open>None\<close> when the fuel does not suffice, \<open>Some\<close> of the error
  or of the value otherwise.
\<close>

definition Parse :: "(string \<Rightarrow> error + 'f) \<Rightarrow> nat \<Rightarrow> string \<Rightarrow> (error + 'f val) option" where
  "Parse pf n inp =
     (case NewParser inp of
        Inl err \<Rightarrow> Some (Inl err)
      | Inr p \<Rightarrow> map_option fst (parseValue pf n p))"

section \<open>Auxiliary definitions\<close>

definition isSpace :: "char \<Rightarrow> bool" where
  "isSpace c \<longleftrightarrow> c = CHR '' '' \<or> c = CHR 0x09 \<or> c = CHR 0x0A \<or> c = CHR 0x0D"

text \<open>
  The lexer that has read \<open>k\<close> bytes of \<open>s\<close> and holds the next one: the states that
  \<open>NewLexer\<close> and \<open>readChar\<close> produce.
\<close>

definition lex_at :: "string \<Rightarrow> nat \<Rightarrow> Lexer" where
  "lex_at s k = \<lparr>input = s, pos = Suc k, ch = (if k < length s then s ! k else CHR 0x00)\<rparr>"

text \<open>
  The states of the lexer: \<open>lexer_ok\<close> says that the current byte is the one before
  \<^verbatim>\<open>pos\<close>, or the end marker beyond the input; \<open>within\<close> says moreover that the lexer
  has not read beyond the end marker.
\<close>

definition lexer_ok :: "Lexer \<Rightarrow> bool" where
  "lexer_ok l \<longleftrightarrow>
     0 < pos l \<and> ch l = (if pos l - 1 < length (input l) then input l ! (pos l - 1) else CHR 0x00)"

definition within :: "Lexer \<Rightarrow> bool" where
  "within l \<longleftrightarrow>
     0 < pos l \<and> pos l \<le> Suc (length (input l))
     \<and> ch l = (if pos l - 1 < length (input l) then input l ! (pos l - 1) else CHR 0x00)"



text \<open>The parser after the first token of the input \<^verbatim>\<open>[@\<close>.\<close>

definition stuck :: Parser where
  "stuck = \<lparr>lexer = lex_at ''[@'' (Suc 0),
            curToken = \<lparr>Type = TokenLeftBracket, Value = [], Pos = 0\<rparr>\<rparr>"

section \<open>JSON text as the specification describes it\<close>

text \<open>
  The body of a string literal is a sequence of items: a character written as itself, one of
  the eight two-character escapes, or \<^verbatim>\<open>\u\<close> followed by four hexadecimal digits.
  \<open>render_item\<close> is the source text of an item and \<open>decoded\<close> the text it stands for (a
  \<^verbatim>\<open>\u\<close> escape stands for the UTF-8 encoding of its code unit); \<open>rune_of\<close> is the rune
  that \<^verbatim>\<open>readString\<close> appends for it, and \<open>scanned\<close> the text that \<^verbatim>\<open>readString\<close>
  returns for a literal, \<^verbatim>\<open>string(result)\<close> of the runes appended.
\<close>

datatype sitem = Plain char | Esc char | Uni char char char char

fun render_item :: "sitem \<Rightarrow> string" where
  "render_item (Plain c) = [c]"
| "render_item (Esc c) = [CHR 0x5C, c]"
| "render_item (Uni a b c d) = [CHR 0x5C, CHR ''u'', a, b, c, d]"

definition hex4 :: "char \<Rightarrow> char \<Rightarrow> char \<Rightarrow> char \<Rightarrow> int" where
  "hex4 a b c d =
     ((the (hexval a) * 16 + the (hexval b)) * 16 + the (hexval c)) * 16 + the (hexval d)"

fun rune_of :: "sitem \<Rightarrow> int" where
  "rune_of (Plain c) = of_char c"
| "rune_of (Esc c) =
     (if c = CHR ''b'' then 0x08 else if c = CHR ''f'' then 0x0C else if c = CHR ''n'' then 0x0A
      else if c = CHR ''r'' then 0x0D else if c = CHR ''t'' then 0x09 else of_char c)"
| "rune_of (Uni a b c d) = hex4 a b c d"

fun decoded :: "sitem \<Rightarrow> string" where
  "decoded (Plain c) = [c]"
| "decoded (Esc c) =
     (if c = CHR ''b'' then [CHR 0x08] else if c = CHR ''f'' then [CHR 0x0C]
      else if c = CHR ''n'' then [CHR 0x0A] else if c = CHR ''r'' then [CHR 0x0D]
      else if c = CHR ''t'' then [CHR 0x09] else [c])"
| "decoded (Uni a b c d) = EncodeRune (hex4 a b c d)"

definition body :: "sitem list \<Rightarrow> string" where
  "body items = concat (map render_item items)"

definition decode :: "sitem list \<Rightarrow> string" where
  "decode items = concat (map decoded items)"

definition scanned :: "sitem list \<Rightarrow> string" where
  "scanned items = concat (map EncodeRune (map rune_of items))"

text \<open>
  A well-formed item: a plain character is not a quote, a backslash or the byte 0; an escape
  letter is one of the eight; the four characters after \<^verbatim>\<open>\u\<close> are hexadecimal digits.
  \<open>item_ascii\<close> says that a plain character is an ASCII character. A literal of
  well-formed items is \<open>items_ok\<close>; it is \<open>literal_ok\<close> when moreover its plain characters
  are ASCII characters, and then the scanned text is the decoded text (lemma
  \<open>literal_decode\<close>).
\<close>

fun item_ok :: "sitem \<Rightarrow> bool" where
  "item_ok (Plain c) \<longleftrightarrow> c \<noteq> CHR 0x22 \<and> c \<noteq> CHR 0x5C \<and> c \<noteq> CHR 0x00"
| "item_ok (Esc c) \<longleftrightarrow> c \<in> set [CHR 0x22, CHR 0x5C, CHR ''/'', CHR ''b'', CHR ''f'', CHR ''n'', CHR ''r'', CHR ''t'']"
| "item_ok (Uni a b c d) \<longleftrightarrow> hexval a \<noteq> None \<and> hexval b \<noteq> None \<and> hexval c \<noteq> None \<and> hexval d \<noteq> None"

fun item_ascii :: "sitem \<Rightarrow> bool" where
  "item_ascii (Plain c) \<longleftrightarrow> (of_char c :: nat) < 128"
| "item_ascii (Esc c) \<longleftrightarrow> True"
| "item_ascii (Uni a b c d) \<longleftrightarrow> True"

definition items_ok :: "sitem list \<Rightarrow> bool" where
  "items_ok items \<longleftrightarrow> list_all item_ok items"

definition literal_ok :: "sitem list \<Rightarrow> bool" where
  "literal_ok items \<longleftrightarrow> list_all (\<lambda>it. item_ok it \<and> item_ascii it) items"

text \<open>
  A number literal by its parts (section 4.1.1 of the specification): the sign, the integer
  part (a single \<^verbatim>\<open>0\<close>, or digits that do not begin with \<^verbatim>\<open>0\<close>), an optional fraction and an
  optional exponent (the letter, the sign, the digits).
\<close>

datatype numlit = NumLit bool string "string option" "(char \<times> string \<times> string) option"

definition digits :: "string \<Rightarrow> bool" where
  "digits ds \<longleftrightarrow> ds \<noteq> [] \<and> list_all IsDigit ds"

fun spell_num :: "numlit \<Rightarrow> string" where
  "spell_num (NumLit neg ip fr ex) =
     (if neg then ''-'' else []) @ ip
     @ (case fr of None \<Rightarrow> [] | Some ds \<Rightarrow> CHR ''.'' # ds)
     @ (case ex of None \<Rightarrow> [] | Some (e, sg, ds) \<Rightarrow> e # sg @ ds)"

fun num_ok :: "numlit \<Rightarrow> bool" where
  "num_ok (NumLit neg ip fr ex) \<longleftrightarrow>
     (ip = ''0'' \<or> (digits ip \<and> hd ip \<noteq> CHR ''0''))
     \<and> (case fr of None \<Rightarrow> True | Some ds \<Rightarrow> digits ds)
     \<and> (case ex of None \<Rightarrow> True
         | Some (e, sg, ds) \<Rightarrow> (e = CHR ''e'' \<or> e = CHR ''E'') \<and> sg \<in> set [[], ''+'', ''-''] \<and> digits ds)"

text \<open>
  The tokens of a JSON text, with the characters that spell each one, the token type and the
  payload that the scanner produces for it (for a string the scanned text, for a number its
  spelling). A word is a token that ends where the next character cannot continue it (a
  number or a keyword); \<open>boundary r\<close> says that the text \<open>r\<close> that follows does not
  continue a word: it does not begin with a digit, a letter or a point.
\<close>

datatype stoken =
    SLeftBrace | SRightBrace | SLeftBracket | SRightBracket | SColon | SComma
  | SString "sitem list" | SNumber numlit | STrue | SFalse | SNull

fun spelling :: "stoken \<Rightarrow> string" where
  "spelling SLeftBrace = ''{''"
| "spelling SRightBrace = ''}''"
| "spelling SLeftBracket = ''[''"
| "spelling SRightBracket = '']''"
| "spelling SColon = '':''"
| "spelling SComma = '',''"
| "spelling (SString items) = CHR 0x22 # body items @ [CHR 0x22]"
| "spelling (SNumber n) = spell_num n"
| "spelling STrue = ''true''"
| "spelling SFalse = ''false''"
| "spelling SNull = ''null''"

fun kind :: "stoken \<Rightarrow> TokenType" where
  "kind SLeftBrace = TokenLeftBrace"
| "kind SRightBrace = TokenRightBrace"
| "kind SLeftBracket = TokenLeftBracket"
| "kind SRightBracket = TokenRightBracket"
| "kind SColon = TokenColon"
| "kind SComma = TokenComma"
| "kind (SString items) = TokenString"
| "kind (SNumber n) = TokenNumber"
| "kind STrue = TokenTrue"
| "kind SFalse = TokenFalse"
| "kind SNull = TokenNull"

fun payload :: "stoken \<Rightarrow> string" where
  "payload (SString items) = scanned items"
| "payload (SNumber n) = spell_num n"
| "payload t = []"

fun is_word :: "stoken \<Rightarrow> bool" where
  "is_word (SNumber n) = True"
| "is_word STrue = True"
| "is_word SFalse = True"
| "is_word SNull = True"
| "is_word t = False"

fun stoken_ok :: "stoken \<Rightarrow> bool" where
  "stoken_ok (SString items) = items_ok items"
| "stoken_ok (SNumber n) = num_ok n"
| "stoken_ok t = True"

definition boundary :: "string \<Rightarrow> bool" where
  "boundary r \<longleftrightarrow> (case r of [] \<Rightarrow> True | c # _ \<Rightarrow> \<not> IsDigit c \<and> \<not> IsLetter c \<and> c \<noteq> CHR ''.'')"

text \<open>
  A JSON document, its tokens, and its text under a layout: \<open>lay ws ts\<close> writes the
  \<open>i\<close>-th run of \<open>ws\<close> before the \<open>i\<close>-th token (and nothing once \<open>ws\<close> is used up);
  the layout keeps the tokens \<open>apart\<close> when no number or keyword is directly followed by a
  digit, a letter or a point. A document is well formed when its string and number literals
  are. \<open>sem pf v\<close> is the value of the document, with the strings as scanned and the
  numbers as \<open>pf\<close> converts them; in an object the last member with a given key decides.
  \<open>rejected pf v\<close> is the error of \<open>pf\<close> for the first number of the document that \<open>pf\<close>
  does not accept, and \<open>outcome pf v\<close> that error, or else the value.
\<close>

datatype json =
    JNull | JBool bool | JNumber numlit | JString "sitem list"
  | JArray "json list" | JObject "(sitem list \<times> json) list"

fun commas :: "stoken list list \<Rightarrow> stoken list" where
  "commas [] = []"
| "commas [ts] = ts"
| "commas (ts # tss) = ts @ SComma # commas tss"

fun tokens :: "json \<Rightarrow> stoken list" where
  "tokens JNull = [SNull]"
| "tokens (JBool b) = [if b then STrue else SFalse]"
| "tokens (JNumber n) = [SNumber n]"
| "tokens (JString items) = [SString items]"
| "tokens (JArray vs) = SLeftBracket # commas (map tokens vs) @ [SRightBracket]"
| "tokens (JObject kvs) =
     SLeftBrace # commas (map (\<lambda>(k, v). SString k # SColon # tokens v) kvs) @ [SRightBrace]"

definition member :: "sitem list \<times> json \<Rightarrow> stoken list" where
  "member kv = SString (fst kv) # SColon # tokens (snd kv)"

fun lay :: "string list \<Rightarrow> stoken list \<Rightarrow> string" where
  "lay ws [] = []"
| "lay [] (t # ts) = spelling t @ lay [] ts"
| "lay (w # ws) (t # ts) = w @ spelling t @ lay ws ts"

definition spaces :: "string list \<Rightarrow> bool" where
  "spaces ws \<longleftrightarrow> list_all (list_all isSpace) ws"

fun apart :: "string list \<Rightarrow> stoken list \<Rightarrow> bool" where
  "apart ws [] = True"
| "apart ws (t # ts) = ((if is_word t then boundary (lay (tl ws) ts) else True) \<and> apart (tl ws) ts)"

fun sem :: "(string \<Rightarrow> error + 'f) \<Rightarrow> json \<Rightarrow> 'f val" where
  "sem pf JNull = Null"
| "sem pf (JBool b) = Boolean b"
| "sem pf (JNumber n) = (case pf (spell_num n) of Inr x \<Rightarrow> Number x | Inl e \<Rightarrow> Null)"
| "sem pf (JString items) = String (scanned items)"
| "sem pf (JArray vs) = Array (map (sem pf) vs)"
| "sem pf (JObject kvs) = Object (map_of (rev (map (\<lambda>(k, v). (scanned k, sem pf v)) kvs)))"

fun first_some :: "'a option list \<Rightarrow> 'a option" where
  "first_some [] = None"
| "first_some (None # xs) = first_some xs"
| "first_some (Some x # xs) = Some x"

fun rejected :: "(string \<Rightarrow> error + 'f) \<Rightarrow> json \<Rightarrow> error option" where
  "rejected pf JNull = None"
| "rejected pf (JBool b) = None"
| "rejected pf (JNumber n) = (case pf (spell_num n) of Inl e \<Rightarrow> Some e | Inr x \<Rightarrow> None)"
| "rejected pf (JString items) = None"
| "rejected pf (JArray vs) = first_some (map (rejected pf) vs)"
| "rejected pf (JObject kvs) = first_some (map (\<lambda>(k, v). rejected pf v) kvs)"

definition outcome :: "(string \<Rightarrow> error + 'f) \<Rightarrow> json \<Rightarrow> error + 'f val" where
  "outcome pf v = (case rejected pf v of Some e \<Rightarrow> Inl e | None \<Rightarrow> Inr (sem pf v))"

fun wf_json :: "json \<Rightarrow> bool" where
  "wf_json JNull = True"
| "wf_json (JBool b) = True"
| "wf_json (JNumber n) = num_ok n"
| "wf_json (JString items) = items_ok items"
| "wf_json (JArray vs) = list_all wf_json vs"
| "wf_json (JObject kvs) = list_all (\<lambda>(k, v). items_ok k \<and> wf_json v) kvs"

text \<open>The literals and documents of the examples.\<close>

definition hello :: "sitem list" where
  "hello = [Uni (CHR ''0'') (CHR ''0'') (CHR ''4'') (CHR ''8''), Uni (CHR ''0'') (CHR ''0'') (CHR ''6'') (CHR ''5''),
            Uni (CHR ''0'') (CHR ''0'') (CHR ''6'') (CHR ''C''), Uni (CHR ''0'') (CHR ''0'') (CHR ''6'') (CHR ''C''),
            Uni (CHR ''0'') (CHR ''0'') (CHR ''6'') (CHR ''F'')]"

definition quoted :: "sitem list" where
  "quoted = [Plain (CHR ''a''), Esc (CHR 0x22), Plain (CHR ''b'')]"



text \<open>
  Auxiliary notions of the proofs: a text that stops a run of characters with property \<open>P\<close>;
  a lexer that stands before the tokens \<open>ts\<close>, laid out in some way and followed by \<open>R\<close>;
  what must follow a word; and a document that \<^verbatim>\<open>parseValue\<close> parses from its first token,
  returning the error of \<open>pf\<close> for the first number that \<open>pf\<close> rejects, or else the value,
  with the lexer before whatever follows the document.
\<close>

definition stop :: "(char \<Rightarrow> bool) \<Rightarrow> string \<Rightarrow> bool" where
  "stop P r \<longleftrightarrow> (case r of [] \<Rightarrow> True | c # _ \<Rightarrow> \<not> P c)"

definition pending :: "Lexer \<Rightarrow> stoken list \<Rightarrow> string \<Rightarrow> bool" where
  "pending l ts R \<longleftrightarrow> (\<exists>s k ws. l = lex_at s k \<and> drop k s = lay ws ts @ R \<and> spaces ws)"

definition follow :: "stoken list \<Rightarrow> string \<Rightarrow> bool" where
  "follow ts R \<longleftrightarrow> (case ts of [] \<Rightarrow> boundary R | t # _ \<Rightarrow> \<not> is_word t)"

definition parses :: "(string \<Rightarrow> error + 'f) \<Rightarrow> json \<Rightarrow> bool" where
  "parses pf v \<longleftrightarrow>
     (\<forall>p ts R. Type (curToken p) = kind (hd (tokens v))
        \<longrightarrow> Value (curToken p) = payload (hd (tokens v))
        \<longrightarrow> pending (lexer p) (tl (tokens v) @ ts) R
        \<longrightarrow> (case rejected pf v of
               None \<Rightarrow> (\<exists>n q. parseValue pf n p = Some (Inr (sem pf v), snd (advance q))
                            \<and> pending (lexer q) ts R)
             | Some e \<Rightarrow> (\<exists>n q. parseValue pf n p = Some (Inl e, q))))"

text \<open>
  Two parsers that stand at the same place of the same tokens under two layouts: a lexer is
  \<open>ready\<close> for the tokens \<open>ts\<close> when they are what remains of its input, laid out apart and
  followed by whitespace only; two parsers are \<open>sim\<close> when their current tokens have the
  same type and value and their lexers are ready for the same tokens; two results of a
  parsing function are \<open>same\<close> when both ran out of fuel, or both returned the same error or
  value with parsers that are \<open>sim\<close>.
\<close>

definition ready :: "Lexer \<Rightarrow> stoken list \<Rightarrow> bool" where
  "ready l ts \<longleftrightarrow>
     (\<exists>s k ws t. l = lex_at s k \<and> drop k s = lay ws ts @ t \<and> spaces ws \<and> apart ws ts
        \<and> list_all isSpace t)"

definition sim :: "Parser \<Rightarrow> Parser \<Rightarrow> bool" where
  "sim p p' \<longleftrightarrow>
     Type (curToken p) = Type (curToken p') \<and> Value (curToken p) = Value (curToken p')
     \<and> (\<exists>ts. list_all stoken_ok ts \<and> ready (lexer p) ts \<and> ready (lexer p') ts)"

definition same :: "('a \<times> Parser) option \<Rightarrow> ('a \<times> Parser) option \<Rightarrow> bool" where
  "same x y \<longleftrightarrow>
     (case x of None \<Rightarrow> y = None | Some (r, q) \<Rightarrow> (\<exists>q'. y = Some (r, q') \<and> sim q q'))"

section \<open>The lexer on a position of its input\<close>

lemma NewLexer_lex_at: "NewLexer s = lex_at s 0"
  by (simp add: NewLexer_def readChar_def lex_at_def)

lemma readChar_lex_at [simp]: "readChar (lex_at s k) = lex_at s (Suc k)"
  by (simp add: readChar_def lex_at_def)

lemma lex_at_sel [simp]:
  "input (lex_at s k) = s" "pos (lex_at s k) = Suc k"
  "ch (lex_at s k) = (if k < length s then s ! k else CHR 0x00)"
  by (simp_all add: lex_at_def)

lemma skipWhitespace_lex_at:
  "skipWhitespace (lex_at s k) = lex_at s (k + length (takeWhile isSpace (drop k s)))"
proof (induction "length s - k" arbitrary: k)
  case 0
  then show ?case by (subst skipWhitespace.simps) simp
next
  case (Suc n)
  then have k: "k < length s" by simp
  have d: "drop k s = s ! k # drop (Suc k) s" using k by (simp add: Cons_nth_drop_Suc)
  show ?case
  proof (cases "isSpace (s ! k)")
    case True
    have "skipWhitespace (lex_at s k) = skipWhitespace (lex_at s (Suc k))"
      using True k by (subst skipWhitespace.simps) (simp add: isSpace_def)
    also have "\<dots> = lex_at s (Suc k + length (takeWhile isSpace (drop (Suc k) s)))"
      using Suc.hyps by (intro Suc.hyps(1)) simp
    finally show ?thesis using True d by simp
  next
    case False
    then show ?thesis using k d by (subst skipWhitespace.simps) (simp add: isSpace_def)
  qed
qed

lemma readDigits_lex_at:
  "readDigits (lex_at s k) = lex_at s (k + length (takeWhile IsDigit (drop k s)))"
proof (induction "length s - k" arbitrary: k)
  case 0
  then show ?case by (subst readDigits.simps) (simp add: IsDigit_def)
next
  case (Suc n)
  then have k: "k < length s" by simp
  have d: "drop k s = s ! k # drop (Suc k) s" using k by (simp add: Cons_nth_drop_Suc)
  show ?case
  proof (cases "IsDigit (s ! k)")
    case True
    have "readDigits (lex_at s k) = readDigits (lex_at s (Suc k))"
      using True k by (subst readDigits.simps) simp
    also have "\<dots> = lex_at s (Suc k + length (takeWhile IsDigit (drop (Suc k) s)))"
      using Suc.hyps by (intro Suc.hyps(1)) simp
    finally show ?thesis using True d by simp
  next
    case False
    then show ?thesis using k d by (subst readDigits.simps) simp
  qed
qed

lemma readLetters_lex_at:
  "readLetters (lex_at s k) = lex_at s (k + length (takeWhile IsLetter (drop k s)))"
proof (induction "length s - k" arbitrary: k)
  case 0
  then show ?case by (subst readLetters.simps) (simp add: IsLetter_def)
next
  case (Suc n)
  then have k: "k < length s" by simp
  have d: "drop k s = s ! k # drop (Suc k) s" using k by (simp add: Cons_nth_drop_Suc)
  show ?case
  proof (cases "IsLetter (s ! k)")
    case True
    have "readLetters (lex_at s k) = readLetters (lex_at s (Suc k))"
      using True k by (subst readLetters.simps) simp
    also have "\<dots> = lex_at s (Suc k + length (takeWhile IsLetter (drop (Suc k) s)))"
      using Suc.hyps by (intro Suc.hyps(1)) simp
    finally show ?thesis using True d by simp
  next
    case False
    then show ?thesis using k d by (subst readLetters.simps) simp
  qed
qed

text \<open>The lexer on a run of characters of its input.\<close>

lemma drop_Cons_iff: "drop k s = c # r \<longleftrightarrow> k < length s \<and> s ! k = c \<and> drop (Suc k) s = r"
proof
  assume h: "drop k s = c # r"
  then have k: "k < length s" by (cases "k < length s") auto
  from Cons_nth_drop_Suc [OF k] h show "k < length s \<and> s ! k = c \<and> drop (Suc k) s = r" using k by simp
next
  assume "k < length s \<and> s ! k = c \<and> drop (Suc k) s = r"
  then show "drop k s = c # r" using Cons_nth_drop_Suc [of k s] by auto
qed

lemma drop_append_eq: "drop k s = a @ r \<Longrightarrow> drop (k + length a) s = r"
proof -
  assume h: "drop k s = a @ r"
  have "drop (k + length a) s = drop (length a) (drop k s)" by (simp add: add.commute)
  then show ?thesis using h by simp
qed

lemma ch_lex_at_drop:
  "drop k s = r \<Longrightarrow> ch (lex_at s k) = (case r of [] \<Rightarrow> CHR 0x00 | c # _ \<Rightarrow> c)"
  by (cases r) (auto simp: drop_Cons_iff)

lemma slice_drop: "drop k s = a @ r \<Longrightarrow> slice s k (k + length a) = a"
  by (simp add: slice_def)

lemma takeWhile_run:
  "list_all P w \<Longrightarrow> (case r of [] \<Rightarrow> True | c # _ \<Rightarrow> \<not> P c) \<Longrightarrow> takeWhile P (w @ r) = w"
  by (induction w) (auto simp: list_all_iff split: list.splits)

lemma skipWhitespace_run:
  assumes "drop k s = w @ r" "list_all isSpace w" "case r of [] \<Rightarrow> True | c # _ \<Rightarrow> \<not> isSpace c"
  shows "skipWhitespace (lex_at s k) = lex_at s (k + length w)"
  by (simp add: skipWhitespace_lex_at assms(1) takeWhile_run [OF assms(2,3)])

lemma readDigits_run:
  assumes "drop k s = ds @ r" "list_all IsDigit ds" "case r of [] \<Rightarrow> True | c # _ \<Rightarrow> \<not> IsDigit c"
  shows "readDigits (lex_at s k) = lex_at s (k + length ds)"
  by (simp add: readDigits_lex_at assms(1) takeWhile_run [OF assms(2,3)])

lemma readLetters_run:
  assumes "drop k s = ds @ r" "list_all IsLetter ds" "case r of [] \<Rightarrow> True | c # _ \<Rightarrow> \<not> IsLetter c"
  shows "readLetters (lex_at s k) = lex_at s (k + length ds)"
  by (simp add: readLetters_lex_at assms(1) takeWhile_run [OF assms(2,3)])

lemma stop_simps [simp]: "stop P []" "stop P (c # r) \<longleftrightarrow> \<not> P c"
  by (simp_all add: stop_def)

lemma readDigits_stop:
  assumes "drop k s = ds @ r" "list_all IsDigit ds" "stop IsDigit r"
  shows "readDigits (lex_at s k) = lex_at s (k + length ds)"
  using assms readDigits_run [of k s ds r] by (simp add: stop_def)

lemma readLetters_stop:
  assumes "drop k s = ds @ r" "list_all IsLetter ds" "stop IsLetter r"
  shows "readLetters (lex_at s k) = lex_at s (k + length ds)"
  using assms readLetters_run [of k s ds r] by (simp add: stop_def)

lemma ch_stop: "drop k s = r \<Longrightarrow> stop P r \<Longrightarrow> \<not> P (CHR 0x00) \<Longrightarrow> \<not> P (ch (lex_at s k))"
  by (cases r) (auto simp: drop_Cons_iff)

section \<open>The lexer moves forward and stays within its input\<close>

lemma pos_skipWhitespace: "pos l \<le> pos (skipWhitespace l)"
proof (induction l rule: skipWhitespace.induct)
  case (1 l)
  then show ?case by (subst skipWhitespace.simps) auto
qed

lemma pos_readDigits: "pos l \<le> pos (readDigits l)"
proof (induction l rule: readDigits.induct)
  case (1 l)
  then show ?case by (subst readDigits.simps) auto
qed

lemma pos_readLetters: "pos l \<le> pos (readLetters l)"
proof (induction l rule: readLetters.induct)
  case (1 l)
  then show ?case by (subst readLetters.simps) auto
qed

lemma pos_readLetters_less: "IsLetter (ch l) \<Longrightarrow> pos l < pos (readLetters l)"
  using pos_readLetters [of "readChar l"] by (subst readLetters.simps) simp

lemma pos_readHex: "pos l \<le> pos (snd (readHex i hex l))"
proof (induction i hex l rule: readHex.induct)
  case (1 hex l)
  show ?case by simp
next
  case (2 i hex l)
  then show ?case by simp
qed

lemma pos_readString_loop: "pos l \<le> pos (snd (readString_loop result l))"
proof (induction result l rule: readString_loop.induct)
  case (1 result l)
  note E = readString_loop.simps [of result l]
  show ?case
  proof (cases "ch l \<noteq> CHR 0x22 \<and> ch l \<noteq> CHR 0x00")
    case False
    then show ?thesis unfolding E by auto
  next
    case c1: True
    show ?thesis
    proof (cases "ch l = CHR 0x5C")
      case False
      with c1 "1.IH"(8) show ?thesis unfolding E by simp
    next
      case c2: True
      let ?c = "ch (readChar l)"
      consider (q) "?c = CHR 0x22 \<or> ?c = CHR 0x5C \<or> ?c = CHR ''/''"
        | (b) "?c = CHR ''b''" | (f) "?c = CHR ''f''" | (n) "?c = CHR ''n''"
        | (r) "?c = CHR ''r''" | (t) "?c = CHR ''t''" | (u) "?c = CHR ''u''"
        | (other) "?c \<notin> set [CHR 0x22, CHR 0x5C, CHR ''/'', CHR ''b'', CHR ''f'', CHR ''n'', CHR ''r'', CHR ''t'', CHR ''u'']"
        by auto
      then show ?thesis
      proof cases
        case q
        with c1 c2 "1.IH"(1) show ?thesis unfolding E by auto
      next
        case b
        with c1 c2 "1.IH"(2) show ?thesis unfolding E by auto
      next
        case f
        with c1 c2 "1.IH"(3) show ?thesis unfolding E by auto
      next
        case n
        with c1 c2 "1.IH"(4) show ?thesis unfolding E by auto
      next
        case r
        with c1 c2 "1.IH"(5) show ?thesis unfolding E by auto
      next
        case t
        with c1 c2 "1.IH"(6) show ?thesis unfolding E by auto
      next
        case u
        have h: "pos l \<le> pos (snd (readHex 4 [] (readChar (readChar l))))"
          using pos_readHex [of "readChar (readChar l)" 4 "[]"] by simp
        show ?thesis
        proof (cases "ParseInt16 (fst (readHex 4 [] (readChar (readChar l))))")
          case None
          with c1 c2 u h show ?thesis unfolding E by simp
        next
          case (Some v)
          with c1 c2 u "1.IH"(7) [of v] h show ?thesis unfolding E by simp
        qed
      next
        case other
        with c1 c2 show ?thesis unfolding E by auto
      qed
    qed
  qed
qed

lemma pos_readString: "pos l < pos (snd (readString l))"
proof -
  have "Suc (pos l) \<le> pos (snd (readString_loop [] (readChar l)))"
    using pos_readString_loop [of "readChar l" "[]"] by simp
  then show ?thesis
    by (cases "readString_loop [] (readChar l)"; cases "fst (readString_loop [] (readChar l))")
       (auto simp: readString_def)
qed

lemma pos_readNumber:
  assumes "ch l \<in> set ''-0123456789''"
  shows "pos l < pos (snd (readNumber l))"
proof -
  define l1 where "l1 = (if ch l = CHR ''-'' then readChar l else l)"
  define l2 where "l2 = (if ch l1 = CHR ''0'' then readChar l1 else readDigits l1)"
  define l3 where "l3 = (if ch l2 = CHR ''.'' then readDigits (readChar l2) else l2)"
  define l4 where "l4 = (if ch l3 = CHR ''e'' \<or> ch l3 = CHR ''E'' then
                  (let l' = readChar l3;
                       l'' = (if ch l' = CHR ''+'' \<or> ch l' = CHR ''-'' then readChar l' else l')
                   in readDigits l'')
                else l3)"
  have r: "snd (readNumber l) = l4"
    unfolding readNumber_def Let_def l4_def l3_def l2_def l1_def snd_conv by (rule refl)
  have 1: "pos l \<le> pos l1" by (simp add: l1_def)
  have 2: "pos l1 \<le> pos l2" using pos_readDigits [of l1] by (simp add: l2_def)
  have 3: "pos l2 \<le> pos l3" using pos_readDigits [of "readChar l2"] by (simp add: l3_def)
  have 4: "pos l3 \<le> pos l4"
    using pos_readDigits [of "readChar l3"] pos_readDigits [of "readChar (readChar l3)"]
    by (auto simp: l4_def Let_def)
  have "pos l < pos l2"
  proof (cases "ch l = CHR ''-''")
    case True
    then show ?thesis using 2 by (simp add: l1_def)
  next
    case False
    then have l1: "l1 = l" by (simp add: l1_def)
    show ?thesis
    proof (cases "ch l = CHR ''0''")
      case True
      then show ?thesis by (simp add: l2_def l1)
    next
      case z: False
      with False assms have "IsDigit (ch l)" by (auto simp: IsDigit_def)
      then have "pos l < pos (readDigits l)"
        using pos_readDigits [of "readChar l"] by (subst readDigits.simps) simp
      then show ?thesis using z by (simp add: l2_def l1)
    qed
  qed
  with 3 4 r show ?thesis by simp
qed

lemma NextToken_progress:
  assumes "NextToken l = ((tok, None), l')"
  shows "Type tok = TokenEOF \<or> pos l < pos l'"
proof -
  define k where "k = skipWhitespace l"
  have k: "pos l \<le> pos k" unfolding k_def by (rule pos_skipWhitespace)
  note N = assms [unfolded NextToken_def Let_def, folded k_def]
  consider (eof) "ch k = CHR 0x00"
    | (punct) "ch k \<in> set ''{}[]:,''"
    | (str) "ch k = CHR 0x22"
    | (num) "ch k \<in> set ''-0123456789''"
    | (word) "ch k \<notin> set ''{}[]:,-0123456789''" "ch k \<noteq> CHR 0x22" "ch k \<noteq> CHR 0x00" "IsLetter (ch k)"
    | (other) "ch k \<notin> set ''{}[]:,-0123456789''" "ch k \<noteq> CHR 0x22" "ch k \<noteq> CHR 0x00" "\<not> IsLetter (ch k)"
    by auto
  then show ?thesis
  proof cases
    case eof
    with N show ?thesis by auto
  next
    case punct
    with N k show ?thesis by (auto split: if_splits)
  next
    case str
    with N pos_readString [of k] k show ?thesis
      by (cases "readString k"; cases "fst (readString k)") auto
  next
    case num
    with N pos_readNumber [OF num] k show ?thesis
      by (cases "readNumber k") (auto split: if_splits)
  next
    case word
    have "pos k < pos (snd (readIdentifier k))"
      using pos_readLetters_less [OF word(4)] by (simp add: readIdentifier_def Let_def)
    with N word k show ?thesis
      by (cases "readIdentifier k") (auto split: if_splits)
  next
    case other
    with N show ?thesis by auto
  qed
qed

lemma within_lex_at: "k \<le> length s \<Longrightarrow> within (lex_at s k)"
  by (simp add: within_def)

lemma lexer_ok_NewLexer: "lexer_ok (NewLexer s)"
  by (simp add: NewLexer_lex_at lexer_ok_def)

lemma lexer_ok_within: "lexer_ok l \<Longrightarrow> ch l \<noteq> CHR 0x00 \<Longrightarrow> within l"
  by (auto simp: lexer_ok_def within_def split: if_splits)

lemma within_readChar:
  assumes "within l" and "ch l \<noteq> CHR 0x00"
  shows "within (readChar l)"
proof -
  from assms have "pos l - 1 < length (input l)" "0 < pos l"
    by (auto simp: within_def split: if_splits)
  then have "pos l \<le> length (input l)" by simp
  then show ?thesis by (simp add: within_def readChar_def Let_def)
qed

lemma within_readDigits: "within l \<Longrightarrow> within (readDigits l)"
proof (induction l rule: readDigits.induct)
  case (1 l)
  show ?case
  proof (cases "IsDigit (ch l)")
    case True
    then have "ch l \<noteq> CHR 0x00" by (rule IsDigit_not_NUL)
    from "1.IH" [OF True within_readChar [OF "1.prems" this]] True show ?thesis
      by (subst readDigits.simps) simp
  next
    case False
    with "1.prems" show ?thesis by (subst readDigits.simps) simp
  qed
qed

lemma within_readLetters: "within l \<Longrightarrow> within (readLetters l)"
proof (induction l rule: readLetters.induct)
  case (1 l)
  show ?case
  proof (cases "IsLetter (ch l)")
    case True
    then have "ch l \<noteq> CHR 0x00" by (rule IsLetter_not_NUL)
    from "1.IH" [OF True within_readChar [OF "1.prems" this]] True show ?thesis
      by (subst readLetters.simps) simp
  next
    case False
    with "1.prems" show ?thesis by (subst readLetters.simps) simp
  qed
qed

lemma input_readDigits [simp]: "input (readDigits l) = input l"
proof (induction l rule: readDigits.induct)
  case (1 l)
  then show ?case by (subst readDigits.simps) simp
qed

lemma input_readLetters [simp]: "input (readLetters l) = input l"
proof (induction l rule: readLetters.induct)
  case (1 l)
  then show ?case by (subst readLetters.simps) simp
qed

lemma within_bound: "within l \<Longrightarrow> pos l - 1 \<le> length (input l)"
  by (auto simp: within_def)

text \<open>
  The slices of \<^verbatim>\<open>readNumber\<close> and \<^verbatim>\<open>readIdentifier\<close> are within the bounds of the input, so
  that the Go code does not panic there.
\<close>

lemma readNumber_bounds:
  assumes "lexer_ok l" and "ch l \<in> set ''-0123456789''"
  shows "pos l - 1 \<le> pos (snd (readNumber l)) - 1
         \<and> pos (snd (readNumber l)) - 1 \<le> length (input (snd (readNumber l)))"
proof -
  define l1 where "l1 = (if ch l = CHR ''-'' then readChar l else l)"
  define l2 where "l2 = (if ch l1 = CHR ''0'' then readChar l1 else readDigits l1)"
  define l3 where "l3 = (if ch l2 = CHR ''.'' then readDigits (readChar l2) else l2)"
  define l4 where "l4 = (if ch l3 = CHR ''e'' \<or> ch l3 = CHR ''E'' then
                  (let l' = readChar l3;
                       l'' = (if ch l' = CHR ''+'' \<or> ch l' = CHR ''-'' then readChar l' else l')
                   in readDigits l'')
                else l3)"
  have r: "snd (readNumber l) = l4"
    unfolding readNumber_def Let_def l4_def l3_def l2_def l1_def snd_conv by (rule refl)
  have "ch l \<noteq> CHR 0x00" using assms(2) by auto
  note w = lexer_ok_within [OF assms(1) this]
  have 1: "within l1" using w within_readChar [of l] by (simp add: l1_def)
  have 2: "within l2" using 1 within_readChar [of l1] within_readDigits [of l1]
    by (simp add: l2_def)
  have 3: "within l3" using 2 within_readChar [of l2] within_readDigits [of "readChar l2"]
    by (simp add: l3_def)
  have "within l4"
  proof (cases "ch l3 = CHR ''e'' \<or> ch l3 = CHR ''E''")
    case False
    with 3 show ?thesis by (simp add: l4_def)
  next
    case True
    then have a: "within (readChar l3)" using 3 within_readChar [of l3] by auto
    then have "within (if ch (readChar l3) = CHR ''+'' \<or> ch (readChar l3) = CHR ''-''
                          then readChar (readChar l3) else readChar l3)"
      using within_readChar [of "readChar l3"] by auto
    from within_readDigits [OF this] True show ?thesis by (simp add: l4_def Let_def)
  qed
  from within_bound [OF this] pos_readNumber [OF assms(2)] r show ?thesis by simp
qed

lemma readIdentifier_bounds:
  assumes "lexer_ok l" and "IsLetter (ch l)"
  shows "pos l - 1 \<le> pos (snd (readIdentifier l)) - 1
         \<and> pos (snd (readIdentifier l)) - 1 \<le> length (input (snd (readIdentifier l)))"
  using within_bound [OF within_readLetters [OF lexer_ok_within [OF assms(1) IsLetter_not_NUL [OF assms(2)]]]]
    pos_readLetters_less [OF assms(2)]
  by (simp add: readIdentifier_def Let_def)

text \<open>Every state that the lexer reaches from \<open>NewLexer\<close> is of this kind.\<close>

lemma lexer_ok_readChar [simp]: "lexer_ok (readChar l)"
  by (simp add: lexer_ok_def readChar_def Let_def)

lemma lexer_ok_skipWhitespace: "lexer_ok l \<Longrightarrow> lexer_ok (skipWhitespace l)"
proof (induction l rule: skipWhitespace.induct)
  case (1 l)
  then show ?case by (subst skipWhitespace.simps) simp
qed

lemma lexer_ok_readDigits: "lexer_ok l \<Longrightarrow> lexer_ok (readDigits l)"
proof (induction l rule: readDigits.induct)
  case (1 l)
  then show ?case by (subst readDigits.simps) simp
qed

lemma lexer_ok_readLetters: "lexer_ok l \<Longrightarrow> lexer_ok (readLetters l)"
proof (induction l rule: readLetters.induct)
  case (1 l)
  then show ?case by (subst readLetters.simps) simp
qed

lemma lexer_ok_readHex: "lexer_ok l \<Longrightarrow> lexer_ok (snd (readHex i hex l))"
  by (induction i hex l rule: readHex.induct) simp_all

lemma lexer_ok_readString_loop: "lexer_ok l \<Longrightarrow> lexer_ok (snd (readString_loop result l))"
proof (induction result l rule: readString_loop.induct)
  case (1 result l)
  note E = readString_loop.simps [of result l]
  note hx = lexer_ok_readHex [of "readChar (readChar l)" 4 "[]"]
  show ?case
  proof (cases "ch l \<noteq> CHR 0x22 \<and> ch l \<noteq> CHR 0x00")
    case False
    with "1.prems" show ?thesis unfolding E by auto
  next
    case c1: True
    show ?thesis
    proof (cases "ch l = CHR 0x5C")
      case False
      with c1 "1.IH"(8) show ?thesis unfolding E by simp
    next
      case c2: True
      let ?c = "ch (readChar l)"
      consider (q) "?c = CHR 0x22 \<or> ?c = CHR 0x5C \<or> ?c = CHR ''/''"
        | (b) "?c = CHR ''b''" | (f) "?c = CHR ''f''" | (n) "?c = CHR ''n''"
        | (r) "?c = CHR ''r''" | (t) "?c = CHR ''t''" | (u) "?c = CHR ''u''"
        | (other) "?c \<notin> set [CHR 0x22, CHR 0x5C, CHR ''/'', CHR ''b'', CHR ''f'', CHR ''n'', CHR ''r'', CHR ''t'', CHR ''u'']"
        by auto
      then show ?thesis
      proof cases
        case q
        with c1 c2 "1.IH"(1) show ?thesis unfolding E by auto
      next
        case b
        with c1 c2 "1.IH"(2) show ?thesis unfolding E by auto
      next
        case f
        with c1 c2 "1.IH"(3) show ?thesis unfolding E by auto
      next
        case n
        with c1 c2 "1.IH"(4) show ?thesis unfolding E by auto
      next
        case r
        with c1 c2 "1.IH"(5) show ?thesis unfolding E by auto
      next
        case t
        with c1 c2 "1.IH"(6) show ?thesis unfolding E by auto
      next
        case u
        show ?thesis
        proof (cases "ParseInt16 (fst (readHex 4 [] (readChar (readChar l))))")
          case None
          with c1 c2 u hx show ?thesis unfolding E by simp
        next
          case (Some v)
          with c1 c2 u "1.IH"(7) [of v] hx show ?thesis unfolding E by simp
        qed
      next
        case other
        with c1 c2 show ?thesis unfolding E by auto
      qed
    qed
  qed
qed

lemma lexer_ok_readNumber:
  assumes "lexer_ok l"
  shows "lexer_ok (snd (readNumber l))"
proof -
  define l1 where "l1 = (if ch l = CHR ''-'' then readChar l else l)"
  define l2 where "l2 = (if ch l1 = CHR ''0'' then readChar l1 else readDigits l1)"
  define l3 where "l3 = (if ch l2 = CHR ''.'' then readDigits (readChar l2) else l2)"
  define l4 where "l4 = (if ch l3 = CHR ''e'' \<or> ch l3 = CHR ''E'' then
                  (let l' = readChar l3;
                       l'' = (if ch l' = CHR ''+'' \<or> ch l' = CHR ''-'' then readChar l' else l')
                   in readDigits l'')
                else l3)"
  have r: "snd (readNumber l) = l4"
    unfolding readNumber_def Let_def l4_def l3_def l2_def l1_def snd_conv by (rule refl)
  have 1: "lexer_ok l1" using assms by (simp add: l1_def)
  have 2: "lexer_ok l2" using 1 by (simp add: l2_def lexer_ok_readDigits)
  have 3: "lexer_ok l3" using 2 by (simp add: l3_def lexer_ok_readDigits)
  have "lexer_ok l4" using 3 by (simp add: l4_def Let_def lexer_ok_readDigits)
  with r show ?thesis by simp
qed

lemma lexer_ok_NextToken:
  assumes "lexer_ok l"
  shows "lexer_ok (snd (NextToken l))"
proof -
  define k where "k = skipWhitespace l"
  have k: "lexer_ok k" unfolding k_def by (rule lexer_ok_skipWhitespace [OF assms])
  have s: "lexer_ok (snd (readString k))"
    using lexer_ok_readString_loop [of "readChar k" "[]"]
    by (cases "readString_loop [] (readChar k)"; cases "fst (readString_loop [] (readChar k))")
       (auto simp: readString_def)
  have i: "lexer_ok (snd (readIdentifier k))"
    using lexer_ok_readLetters [OF k] by (simp add: readIdentifier_def Let_def)
  note n = lexer_ok_readNumber [OF k]
  note N = NextToken_def [of l, unfolded Let_def, folded k_def]
  consider (eof) "ch k = CHR 0x00"
    | (punct) "ch k \<in> set ''{}[]:,''"
    | (str) "ch k = CHR 0x22"
    | (num) "ch k \<in> set ''-0123456789''"
    | (word) "ch k \<notin> set ''{}[]:,-0123456789''" "ch k \<noteq> CHR 0x22" "ch k \<noteq> CHR 0x00" "IsLetter (ch k)"
    | (other) "ch k \<notin> set ''{}[]:,-0123456789''" "ch k \<noteq> CHR 0x22" "ch k \<noteq> CHR 0x00" "\<not> IsLetter (ch k)"
    by auto
  then show ?thesis
  proof cases
    case eof
    with k show ?thesis unfolding N by simp
  next
    case punct
    then show ?thesis unfolding N by auto
  next
    case str
    with s show ?thesis unfolding N
      by (cases "readString k"; cases "fst (readString k)") auto
  next
    case num
    with n show ?thesis unfolding N
      by (cases "readNumber k") (auto split: if_splits)
  next
    case word
    with i show ?thesis unfolding N
      by (cases "readIdentifier k") (auto split: if_splits)
  next
    case other
    with k show ?thesis unfolding N by auto
  qed
qed

section \<open>Errors that are dropped\<close>

text \<open>
  The token trace of the input \<^verbatim>\<open>[x]]\<close>: the second call of \<open>NextToken\<close> fails on the
  identifier \<^verbatim>\<open>x\<close> and leaves the lexer behind it.
\<close>

lemma lex_dropped:
  "NextToken (NewLexer ''[x]]'') =
     ((\<lparr>Type = TokenLeftBracket, Value = [], Pos = 0\<rparr>, None), lex_at ''[x]]'' (Suc 0))"
  "NextToken (lex_at ''[x]]'' (Suc 0)) =
     ((\<lparr>Type = TokenEOF, Value = [], Pos = 1\<rparr>, Some (Errorf ''unexpected identifier: x'')),
      lex_at ''[x]]'' 2)"
  "NextToken (lex_at ''[x]]'' 2) =
     ((\<lparr>Type = TokenRightBracket, Value = [], Pos = 2\<rparr>, None), lex_at ''[x]]'' 3)"
  "NextToken (lex_at ''[x]]'' 3) =
     ((\<lparr>Type = TokenRightBracket, Value = [], Pos = 3\<rparr>, None), lex_at ''[x]]'' 4)"
  "NextToken (lex_at ''[x]]'' 4) =
     ((\<lparr>Type = TokenEOF, Value = [], Pos = 4\<rparr>, None), lex_at ''[x]]'' 4)"
  by code_simp+

lemma Parse_dropped:
  "Parse pf (Suc (Suc (Suc (Suc (Suc n))))) ''[x]]'' = Some (Inr (Array [Array []]))"
  by (simp add: Parse_def NewParser_def advance_def lex_dropped)

text \<open>
  C1. The claim: every scanning or grammar error is returned up the call chain at once, so
  that whenever an error arises during \<^verbatim>\<open>Parse(input)\<close>, \<^verbatim>\<open>Parse\<close> returns that first
  error and no value. The code drops the error of every \<^verbatim>\<open>p.advance()\<close>: on the input
  \<^verbatim>\<open>[x]]\<close> the call of \<open>advance\<close> after the opening bracket reports
  \<^verbatim>\<open>unexpected identifier: x\<close>, and \<open>Parse\<close> returns the value \<^verbatim>\<open>[[]]\<close> with no error.
\<close>

theorem Parse_drops_error:
  "(case NewParser ''[x]]'' of
      Inl err \<Rightarrow> False
    | Inr p \<Rightarrow> fst (advance p) = Some (Errorf ''unexpected identifier: x''))
   \<and> Parse pf (Suc (Suc (Suc (Suc (Suc n))))) ''[x]]'' = Some (Inr (Array [Array []]))"
  using Parse_dropped [of pf n] by (simp add: NewParser_def advance_def lex_dropped)

lemma NewParser_stuck: "NewParser ''[@'' = Inr stuck"
  by code_simp

lemma advance_stuck: "advance stuck = (Some (Errorf ''unexpected character: @''), stuck)"
  by code_simp

lemma parse_stuck:
  "parseValue pf n stuck = None \<and> parseArray pf n stuck = None
   \<and> parseArray_loop pf n [] stuck = None"
proof (induction n)
  case 0
  show ?case by simp
next
  case (Suc n)
  have t: "Type (curToken stuck) = TokenLeftBracket" by (simp add: stuck_def)
  show ?case using Suc by (simp add: advance_stuck t)
qed

text \<open>
  C10. The claim: a call of \<^verbatim>\<open>NextToken\<close> that returns without error returns an EOF token
  or moves the lexer forward, hence the loops and the recursion of the parser make progress
  and \<^verbatim>\<open>Parse\<close> terminates on every input. The first part holds (lemma
  \<open>NextToken_progress\<close>). But a call of \<^verbatim>\<open>NextToken\<close> that fails on an unexpected
  character does not move the lexer, and the parser drops that error: on the input \<^verbatim>\<open>[@\<close>
  the functions \<^verbatim>\<open>parseValue\<close> and \<^verbatim>\<open>parseArray\<close> call each other in the same state for
  ever, so no amount of fuel lets \<open>Parse\<close> return.
\<close>

theorem Parse_never_returns: "Parse pf n ''[@'' = None"
  by (simp add: Parse_def NewParser_stuck parse_stuck)

section \<open>Blank input\<close>

lemma NewParser_space:
  assumes "\<forall>c\<in>set inp. isSpace c"
  shows "NewParser inp =
    Inr \<lparr>lexer = lex_at inp (length inp),
         curToken = \<lparr>Type = TokenEOF, Value = [], Pos = int (length inp)\<rparr>\<rparr>"
proof -
  have tw: "takeWhile isSpace inp = inp" using assms by (simp add: takeWhile_eq_all_conv)
  show ?thesis
    by (simp add: NewParser_def NextToken_def NewLexer_lex_at skipWhitespace_lex_at tw)
qed

text \<open>
  C9. \<^verbatim>\<open>Parse\<close> of the empty string, and of any input made of whitespace only, returns an
  error (the end-of-input token cannot start a value), never a value.
\<close>

theorem Parse_blank_input:
  assumes "\<forall>c\<in>set inp. isSpace c"
  shows "Parse pf (Suc n) inp = Some (Inl (Errorf ''unexpected token: 0''))"
  by (simp add: Parse_def NewParser_space [OF assms])

theorem Parse_blank_input_witness:
  "list_all isSpace [CHR '' '', CHR 0x0A]
   \<and> Parse ParseFloat (Suc 0) [CHR '' '', CHR 0x0A] = Some (Inl (Errorf ''unexpected token: 0''))"
  using Parse_blank_input [of "[CHR '' '', CHR 0x0A]" ParseFloat 0] by (simp add: isSpace_def)

section \<open>The outcome does not depend on the fuel\<close>

lemma parse_Suc:
  "(\<forall>p r. parseValue pf n p = Some r \<longrightarrow> parseValue pf (Suc n) p = Some r)
   \<and> (\<forall>p r. parseObject pf n p = Some r \<longrightarrow> parseObject pf (Suc n) p = Some r)
   \<and> (\<forall>obj p r. parseObject_loop pf n obj p = Some r \<longrightarrow> parseObject_loop pf (Suc n) obj p = Some r)
   \<and> (\<forall>p r. parseArray pf n p = Some r \<longrightarrow> parseArray pf (Suc n) p = Some r)
   \<and> (\<forall>arr p r. parseArray_loop pf n arr p = Some r \<longrightarrow> parseArray_loop pf (Suc n) arr p = Some r)"
proof (induction n)
  case 0
  show ?case by simp
next
  case (Suc n)
  then have V: "\<And>p r. parseValue pf n p = Some r \<Longrightarrow> parseValue pf (Suc n) p = Some r"
    and O: "\<And>p r. parseObject pf n p = Some r \<Longrightarrow> parseObject pf (Suc n) p = Some r"
    and OL: "\<And>obj p r. parseObject_loop pf n obj p = Some r \<Longrightarrow> parseObject_loop pf (Suc n) obj p = Some r"
    and A: "\<And>p r. parseArray pf n p = Some r \<Longrightarrow> parseArray pf (Suc n) p = Some r"
    and AL: "\<And>arr p r. parseArray_loop pf n arr p = Some r \<Longrightarrow> parseArray_loop pf (Suc n) arr p = Some r"
    by blast+
  have 1: "parseValue pf (Suc (Suc n)) p = Some r" if h: "parseValue pf (Suc n) p = Some r" for p r
  proof (cases "Type (curToken p)")
    case TokenLeftBrace
    with h obtain x where x: "parseObject pf n p = Some x"
      by (cases "parseObject pf n p") auto
    from O [OF x] x h TokenLeftBrace show ?thesis
      by (simp del: parseObject.simps)
  next
    case TokenLeftBracket
    with h obtain x where x: "parseArray pf n p = Some x"
      by (cases "parseArray pf n p") auto
    from A [OF x] x h TokenLeftBracket show ?thesis
      by (simp del: parseArray.simps)
  qed (use h in simp_all)
  have 2: "parseObject pf (Suc (Suc n)) p = Some r" if h: "parseObject pf (Suc n) p = Some r" for p r
  proof (cases "Type (curToken (snd (advance p))) = TokenRightBrace")
    case True
    with h show ?thesis by (simp add: Let_def)
  next
    case False
    with h have "parseObject_loop pf n Map.empty (snd (advance p)) = Some r"
      by (simp add: Let_def)
    from OL [OF this] False show ?thesis
      by (simp add: Let_def del: parseObject_loop.simps)
  qed
  have 4: "parseArray pf (Suc (Suc n)) p = Some r" if h: "parseArray pf (Suc n) p = Some r" for p r
  proof (cases "Type (curToken (snd (advance p))) = TokenRightBracket")
    case True
    with h show ?thesis by (simp add: Let_def)
  next
    case False
    with h have "parseArray_loop pf n [] (snd (advance p)) = Some r"
      by (simp add: Let_def)
    from AL [OF this] False show ?thesis
      by (simp add: Let_def del: parseArray_loop.simps)
  qed
  have 3: "parseObject_loop pf (Suc (Suc n)) obj p = Some r"
    if h: "parseObject_loop pf (Suc n) obj p = Some r" for obj p r
  proof -
    define p1 where "p1 = snd (advance p)"
    define key where "key = Value (curToken p)"
    note E1 = parseObject_loop.simps(2) [of pf n obj p, folded p1_def key_def, unfolded Let_def]
    note E2 = parseObject_loop.simps(2) [of pf "Suc n" obj p, folded p1_def key_def, unfolded Let_def]
    show ?thesis
    proof (cases "Type (curToken p) \<noteq> TokenString \<or> Type (curToken p1) \<noteq> TokenColon")
      case True
      with h show ?thesis unfolding E1 E2 by auto
    next
      case False
      with h obtain res p2 where x: "parseValue pf n (snd (advance p1)) = Some (res, p2)"
        unfolding E1 by (cases "parseValue pf n (snd (advance p1))") auto
      note x' = V [OF x]
      show ?thesis
      proof (cases res)
        case (Inl err)
        with h False x x' show ?thesis unfolding E1 E2 by simp
      next
        case (Inr v)
        show ?thesis
        proof (cases "Type (curToken p2) = TokenRightBrace \<or> Type (curToken p2) \<noteq> TokenComma")
          case True
          with h False x x' Inr show ?thesis unfolding E1 E2 by auto
        next
          case F2: False
          with h False x Inr
          have "parseObject_loop pf n (obj(key \<mapsto> v)) (snd (advance p2)) = Some r"
            unfolding E1 by simp
          from OL [OF this] False x' Inr F2 show ?thesis unfolding E2 by simp
        qed
      qed
    qed
  qed
  have 5: "parseArray_loop pf (Suc (Suc n)) arr p = Some r"
    if h: "parseArray_loop pf (Suc n) arr p = Some r" for arr p r
  proof -
    note E1 = parseArray_loop.simps(2) [of pf n arr p]
    note E2 = parseArray_loop.simps(2) [of pf "Suc n" arr p]
    from h obtain res p2 where x: "parseValue pf n p = Some (res, p2)"
      unfolding E1 by (cases "parseValue pf n p") auto
    note x' = V [OF x]
    show ?thesis
    proof (cases res)
      case (Inl err)
      with h x x' show ?thesis unfolding E1 E2 by simp
    next
      case (Inr v)
      show ?thesis
      proof (cases "Type (curToken p2) = TokenRightBracket \<or> Type (curToken p2) \<noteq> TokenComma")
        case True
        with h x x' Inr show ?thesis unfolding E1 E2 by auto
      next
        case F2: False
        with h x Inr
        have "parseArray_loop pf n (arr @ [v]) (snd (advance p2)) = Some r"
          unfolding E1 by simp
        from AL [OF this] x' Inr F2 show ?thesis unfolding E2 by simp
      qed
    qed
  qed
  show ?case using 1 2 3 4 5 by blast
qed

lemma parseValue_mono:
  "parseValue pf n p = Some r \<Longrightarrow> n \<le> m \<Longrightarrow> parseValue pf m p = Some r"
  by (induction m) (auto simp: le_Suc_eq parse_Suc simp del: parseValue.simps)

lemma Parse_mono: "Parse pf n inp = Some r \<Longrightarrow> n \<le> m \<Longrightarrow> Parse pf m inp = Some r"
  by (auto simp: Parse_def split: sum.splits dest: parseValue_mono)


section \<open>What an error carries\<close>












section \<open>The scanner on well-formed tokens\<close>

subsection \<open>String literals\<close>

lemma of_char_int: "(of_char c :: int) = int (of_char c)"
  by (simp add: of_nat_of_char)

lemma EncodeRune_ascii: "(of_char c :: nat) < 128 \<Longrightarrow> EncodeRune (of_char c) = [c]"
  by (simp add: EncodeRune_def of_char_int)

lemma EncodeRune_controls:
  "EncodeRune 8 = [CHR 0x08]" "EncodeRune 12 = [CHR 0x0C]" "EncodeRune 10 = [CHR 0x0A]"
  "EncodeRune 13 = [CHR 0x0D]" "EncodeRune 9 = [CHR 0x09]"
  by code_simp+

lemma hexval_range: "hexval c = Some v \<Longrightarrow> (of_char c :: nat) < 128 \<and> 0 \<le> v \<and> v < 16"
  by (auto simp: hexval_def Let_def of_char_int split: if_splits)

lemma hexval_not_sign: "hexval c = Some v \<Longrightarrow> c \<noteq> CHR ''+'' \<and> c \<noteq> CHR ''-''"
  by (auto simp: hexval_def Let_def split: if_splits)

lemma ParseInt16_hex4:
  assumes "hexval a \<noteq> None" "hexval b \<noteq> None" "hexval c \<noteq> None" "hexval d \<noteq> None"
  shows "ParseInt16 [a, b, c, d] = Some (hex4 a b c d)"
proof -
  from assms obtain va vb vc vd where
    v: "hexval a = Some va" "hexval b = Some vb" "hexval c = Some vc" "hexval d = Some vd"
    by auto
  note r = hexval_range [OF v(1)] hexval_range [OF v(2)] hexval_range [OF v(3)] hexval_range [OF v(4)]
  have "((va * 16 + vb) * 16 + vc) * 16 + vd < 2147483648" using r by simp
  then show ?thesis
    using v hexval_not_sign [OF v(1)] by (simp add: ParseInt16_def hex4_def)
qed

lemma readHex_4:
  assumes "drop k s = a # b # c # d # r"
    and "hexval a \<noteq> None" "hexval b \<noteq> None" "hexval c \<noteq> None" "hexval d \<noteq> None"
  shows "readHex 4 [] (lex_at s k) = ([a, b, c, d], lex_at s (k + 4))"
proof -
  from assms(2-5) have asc: "(of_char a :: nat) < 128" "(of_char b :: nat) < 128"
      "(of_char c :: nat) < 128" "(of_char d :: nat) < 128"
    using hexval_range by blast+
  from assms(1) have "k < length s" "s ! k = a" "Suc k < length s" "s ! Suc k = b"
      "Suc (Suc k) < length s" "s ! Suc (Suc k) = c"
      "Suc (Suc (Suc k)) < length s" "s ! Suc (Suc (Suc k)) = d"
    by (simp_all add: drop_Cons_iff)
  then show ?thesis
    using asc by (simp add: numeral_eq_Suc EncodeRune_ascii)
qed

lemma readString_loop_items:
  assumes "\<forall>it\<in>set items. item_ok it"
    and "drop k s = body items @ CHR 0x22 # rest"
  shows "readString_loop res (lex_at s k) =
           (Inr (res @ map rune_of items), lex_at s (k + length (body items)))"
  using assms
proof (induction items arbitrary: k res)
  case Nil
  then have "k < length s" "s ! k = CHR 0x22" by (simp_all add: body_def drop_Cons_iff)
  then show ?case by (subst readString_loop.simps) (simp add: body_def)
next
  case (Cons it items)
  from Cons.prems(1) have ok: "item_ok it" and oks: "\<forall>it\<in>set items. item_ok it" by simp_all
  have b: "body (it # items) = render_item it @ body items" by (simp add: body_def)
  show ?case
  proof (cases it)
    case (Plain c)
    with Cons.prems(2) b have d: "k < length s" "s ! k = c"
        "drop (Suc k) s = body items @ CHR 0x22 # rest"
      by (simp_all add: drop_Cons_iff)
    from ok Plain have c: "c \<noteq> CHR 0x22" "c \<noteq> CHR 0x5C" "c \<noteq> CHR 0x00" by simp_all
    have "readString_loop res (lex_at s k) = readString_loop (res @ [of_char c]) (lex_at s (Suc k))"
      using d c by (subst readString_loop.simps) simp
    also have "\<dots> = (Inr ((res @ [of_char c]) @ map rune_of items),
                        lex_at s (Suc k + length (body items)))"
      by (rule Cons.IH [OF oks d(3)])
    finally show ?thesis using Plain b by simp
  next
    case (Esc c)
    with Cons.prems(2) b have d: "k < length s" "s ! k = CHR 0x5C"
        "Suc k < length s" "s ! Suc k = c"
        "drop (Suc (Suc k)) s = body items @ CHR 0x22 # rest"
      by (simp_all add: drop_Cons_iff)
    from ok Esc have c: "c \<in> set [CHR 0x22, CHR 0x5C, CHR ''/'', CHR ''b'', CHR ''f'', CHR ''n'', CHR ''r'', CHR ''t'']"
      by simp
    have "readString_loop res (lex_at s k) =
            readString_loop (res @ [rune_of (Esc c)]) (lex_at s (Suc (Suc k)))"
      using d c by (subst readString_loop.simps) auto
    also have "\<dots> = (Inr ((res @ [rune_of (Esc c)]) @ map rune_of items),
                        lex_at s (Suc (Suc k) + length (body items)))"
      by (rule Cons.IH [OF oks d(5)])
    finally show ?thesis using Esc b by simp
  next
    case (Uni a b' c d')
    with Cons.prems(2) b have d: "k < length s" "s ! k = CHR 0x5C"
        "Suc k < length s" "s ! Suc k = CHR ''u''"
        "drop (Suc (Suc k)) s = a # b' # c # d' # body items @ CHR 0x22 # rest"
      by (simp_all add: drop_Cons_iff)
    from ok Uni have h: "hexval a \<noteq> None" "hexval b' \<noteq> None" "hexval c \<noteq> None" "hexval d' \<noteq> None"
      by simp_all
    have e: "Suc (Suc k) + 4 = Suc (Suc (Suc (Suc (Suc (Suc k)))))" by simp
    note rh = readHex_4 [OF d(5) h, unfolded e]
    from d(5) have d6: "drop (Suc (Suc (Suc (Suc (Suc (Suc k)))))) s = body items @ CHR 0x22 # rest"
      by (simp add: drop_Cons_iff)
    have "readString_loop res (lex_at s k) =
            readString_loop (res @ [hex4 a b' c d']) (lex_at s (Suc (Suc (Suc (Suc (Suc (Suc k)))))))"
      using d(1-4) by (subst readString_loop.simps) (simp add: rh ParseInt16_hex4 [OF h])
    also have "\<dots> = (Inr ((res @ [hex4 a b' c d']) @ map rune_of items),
                        lex_at s (Suc (Suc (Suc (Suc (Suc (Suc k))))) + length (body items)))"
      by (rule Cons.IH [OF oks d6])
    finally show ?thesis using Uni b by simp
  qed
qed

lemma readString_literal:
  assumes "\<forall>it\<in>set items. item_ok it"
    and "drop k s = CHR 0x22 # body items @ CHR 0x22 # r"
  shows "readString (lex_at s k) =
           (Inr (concat (map EncodeRune (map rune_of items))),
            lex_at s (k + length (body items) + 2))"
proof -
  from assms(2) have d: "drop (Suc k) s = body items @ CHR 0x22 # r"
    by (simp add: drop_Cons_iff)
  note loop = readString_loop_items [OF assms(1) d, of "[]"]
  have "ch (lex_at s (Suc k + length (body items))) = CHR 0x22"
    using ch_lex_at_drop [OF drop_append_eq [OF d]] by simp
  then show ?thesis
    by (simp add: readString_def loop del: lex_at_sel)
qed

lemma EncodeRune_decoded:
  "item_ok it \<Longrightarrow> item_ascii it \<Longrightarrow> EncodeRune (rune_of it) = decoded it"
proof (cases it)
  case (Plain c)
  assume "item_ascii it"
  with Plain show ?thesis by (simp add: EncodeRune_ascii)
next
  case (Esc c)
  assume "item_ok it"
  with Esc have "c \<in> set [CHR 0x22, CHR 0x5C, CHR ''/'', CHR ''b'', CHR ''f'', CHR ''n'', CHR ''r'', CHR ''t'']"
    by simp
  then consider "c = CHR ''b''" | "c = CHR ''f''" | "c = CHR ''n''" | "c = CHR ''r''" | "c = CHR ''t''"
    | "c = CHR 0x22" | "c = CHR 0x5C" | "c = CHR ''/''" by auto
  then show ?thesis
    using Esc EncodeRune_ascii [of c] by cases (simp_all add: EncodeRune_controls)
next
  case (Uni a b c d)
  then show ?thesis by simp
qed

lemma literal_decode: "literal_ok items \<Longrightarrow> scanned items = decode items"
  by (induction items) (simp_all add: literal_ok_def decode_def scanned_def EncodeRune_decoded)

lemma literal_items_ok: "literal_ok items \<Longrightarrow> items_ok items"
  by (simp add: literal_ok_def items_ok_def list_all_iff)

subsection \<open>Number literals and keywords\<close>

lemma readNumber_literal:
  assumes ok: "num_ok (NumLit neg ip fr ex)"
    and d: "drop k s = spell_num (NumLit neg ip fr ex) @ r"
    and r: "boundary r"
  shows "readNumber (lex_at s k) =
           (spell_num (NumLit neg ip fr ex), lex_at s (k + length (spell_num (NumLit neg ip fr ex))))"
proof -
  define sgn where "sgn = (if neg then ''-'' else [])"
  define frs where "frs = (case fr of None \<Rightarrow> [] | Some ds \<Rightarrow> CHR ''.'' # ds)"
  define exs where "exs = (case ex of None \<Rightarrow> [] | Some (e, sg, ds) \<Rightarrow> e # sg @ ds)"
  have sp: "spell_num (NumLit neg ip fr ex) = sgn @ ip @ frs @ exs"
    by (simp add: sgn_def frs_def exs_def)
  define k1 where "k1 = k + length sgn"
  define k2 where "k2 = k1 + length ip"
  define k3 where "k3 = k2 + length frs"
  define k4 where "k4 = k3 + length exs"
  have d0: "drop k s = sgn @ ip @ frs @ exs @ r" using d sp by simp
  have d1: "drop k1 s = ip @ frs @ exs @ r" unfolding k1_def by (rule drop_append_eq [OF d0])
  have d2: "drop k2 s = frs @ exs @ r" unfolding k2_def by (rule drop_append_eq [OF d1])
  have d3: "drop k3 s = exs @ r" unfolding k3_def by (rule drop_append_eq [OF d2])
  have rb: "stop IsDigit r" "stop IsLetter r" "stop (\<lambda>c. c = CHR ''.'') r"
    using r by (auto simp: boundary_def stop_def split: list.splits)
  have ipd: "ip \<noteq> []" "IsDigit (hd ip)" "list_all IsDigit ip"
    using ok by (auto simp: digits_def IsDigit_def list_all_iff)
  have exd: "stop IsDigit (exs @ r)" "stop (\<lambda>c. c = CHR ''.'') (exs @ r)"
    using ok rb by (auto simp: exs_def IsDigit_def split: option.splits)
  have frd: "stop IsDigit (frs @ exs @ r)"
    using exd by (auto simp: frs_def IsDigit_def split: option.splits)
  \<comment> \<open>the sign\<close>
  have p1: "(if ch (lex_at s k) = CHR ''-'' then readChar (lex_at s k) else lex_at s k) = lex_at s k1"
  proof (cases neg)
    case True
    then show ?thesis using d0 by (simp add: sgn_def k1_def drop_Cons_iff)
  next
    case False
    then have "drop k s = ip @ frs @ exs @ r" using d0 by (simp add: sgn_def)
    then have "ch (lex_at s k) = hd ip" using ipd(1) by (cases ip) (simp_all add: drop_Cons_iff)
    then show ?thesis using ipd(2) False by (auto simp: sgn_def k1_def IsDigit_def)
  qed
  \<comment> \<open>the integer part\<close>
  have c1: "ch (lex_at s k1) = hd ip" using d1 ipd(1) by (cases ip) (simp_all add: drop_Cons_iff)
  have p2: "(if ch (lex_at s k1) = CHR ''0'' then readChar (lex_at s k1) else readDigits (lex_at s k1))
              = lex_at s k2"
  proof (cases "ip = ''0''")
    case True
    then show ?thesis using c1 by (simp add: k2_def)
  next
    case False
    then have "hd ip \<noteq> CHR ''0''" using ok by simp
    then show ?thesis using c1 readDigits_stop [OF d1 ipd(3) frd] by (simp add: k2_def)
  qed
  \<comment> \<open>the fraction\<close>
  have p3: "(if ch (lex_at s k2) = CHR ''.'' then readDigits (readChar (lex_at s k2)) else lex_at s k2)
              = lex_at s k3"
  proof (cases fr)
    case None
    then have "drop k2 s = exs @ r" using d2 by (simp add: frs_def)
    from ch_stop [OF this exd(2)] have "ch (lex_at s k2) \<noteq> CHR ''.''" by simp
    then show ?thesis using None by (simp add: k3_def frs_def del: lex_at_sel)
  next
    case (Some ds)
    then have dd: "drop k2 s = CHR ''.'' # ds @ exs @ r" using d2 by (simp add: frs_def)
    then have c: "ch (lex_at s k2) = CHR ''.''" and dd': "drop (Suc k2) s = ds @ exs @ r"
      by (simp_all add: drop_Cons_iff)
    have "list_all IsDigit ds" using ok Some by (simp add: digits_def)
    from readDigits_stop [OF dd' this exd(1)] c Some show ?thesis
      by (simp add: k3_def frs_def)
  qed
  \<comment> \<open>the exponent\<close>
  have p4: "(if ch (lex_at s k3) = CHR ''e'' \<or> ch (lex_at s k3) = CHR ''E''
             then readDigits (if ch (readChar (lex_at s k3)) = CHR ''+'' \<or> ch (readChar (lex_at s k3)) = CHR ''-''
                              then readChar (readChar (lex_at s k3)) else readChar (lex_at s k3))
             else lex_at s k3) = lex_at s k4"
  proof (cases ex)
    case None
    then have "drop k3 s = r" using d3 by (simp add: exs_def)
    from ch_stop [OF this rb(2)] have "\<not> IsLetter (ch (lex_at s k3))"
      by (simp add: IsLetter_def)
    then have "ch (lex_at s k3) \<noteq> CHR ''e''" "ch (lex_at s k3) \<noteq> CHR ''E''"
      by (auto simp: IsLetter_def)
    then show ?thesis using None by (simp add: k4_def exs_def del: lex_at_sel)
  next
    case (Some x)
    obtain e sg ds where x: "x = (e, sg, ds)" by (cases x)
    with Some ok have e: "e = CHR ''e'' \<or> e = CHR ''E''" and sg: "sg = [] \<or> sg = ''+'' \<or> sg = ''-''"
      and ds: "ds \<noteq> []" "list_all IsDigit ds"
      by (auto simp: digits_def)
    from Some x d3 have dd: "drop k3 s = e # sg @ ds @ r" by (simp add: exs_def)
    then have c: "ch (lex_at s k3) = e" and dd': "drop (Suc k3) s = sg @ ds @ r"
      by (simp_all add: drop_Cons_iff)
    have len: "k4 = Suc k3 + length sg + length ds" using Some x by (simp add: k4_def exs_def)
    show ?thesis
    proof (cases "sg = []")
      case True
      with dd' have d5: "drop (Suc k3) s = ds @ r" by simp
      then have "ch (lex_at s (Suc k3)) = hd ds" using ds(1) by (cases ds) (simp_all add: drop_Cons_iff)
      moreover have "IsDigit (hd ds)" using ds by (cases ds) simp_all
      ultimately have "ch (lex_at s (Suc k3)) \<noteq> CHR ''+''" "ch (lex_at s (Suc k3)) \<noteq> CHR ''-''"
        by (auto simp: IsDigit_def)
      then show ?thesis
        using c e readDigits_stop [OF d5 ds(2) rb(1)] True len by (auto simp del: lex_at_sel)
    next
      case False
      with sg obtain g where g: "sg = [g]" "g = CHR ''+'' \<or> g = CHR ''-''" by auto
      with dd' have "ch (lex_at s (Suc k3)) = g" and d5: "drop (Suc (Suc k3)) s = ds @ r"
        by (simp_all add: drop_Cons_iff)
      then show ?thesis
        using c e g readDigits_stop [OF d5 ds(2) rb(1)] len by (auto simp del: lex_at_sel)
    qed
  qed
  have sl: "slice s k k4 = spell_num (NumLit neg ip fr ex)"
    using slice_drop [of k s "sgn @ ip @ frs @ exs" r] d0 sp
    by (simp add: k4_def k3_def k2_def k1_def add.assoc)
  have k4: "k4 = k + length (spell_num (NumLit neg ip fr ex))"
    using sp by (simp add: k4_def k3_def k2_def k1_def)
  show ?thesis
    unfolding readNumber_def Let_def p1 p2 p3 p4 using sl k4 by simp
qed

lemma readIdentifier_word:
  assumes "drop k s = ds @ r" "list_all IsLetter ds" "boundary r"
  shows "readIdentifier (lex_at s k) = (ds, lex_at s (k + length ds))"
proof -
  have "stop IsLetter r" using assms(3) by (auto simp: boundary_def stop_def split: list.splits)
  from readLetters_stop [OF assms(1,2) this] slice_drop [OF assms(1)]
  show ?thesis by (simp add: readIdentifier_def Let_def)
qed

lemma char_of_digits:
  "map char_of [48::nat, 49, 50, 51, 52, 53, 54, 55, 56, 57] = ''0123456789''"
  by code_simp

lemma IsDigit_set: 
  assumes "IsDigit c"
  shows "c \<in> set ''0123456789''"
proof -
  have "(of_char c :: nat) \<in> set [48, 49, 50, 51, 52, 53, 54, 55, 56, 57]"
    using assms by (simp add: IsDigit_def) arith
  then have "char_of (of_char c :: nat) \<in> char_of ` set [48::nat, 49, 50, 51, 52, 53, 54, 55, 56, 57]"
    by (rule imageI)
  then have "c \<in> set (map char_of [48::nat, 49, 50, 51, 52, 53, 54, 55, 56, 57])"
    by (simp only: set_map char_of_char)
  then show ?thesis by (simp only: char_of_digits)
qed

lemma spell_num_head:
  assumes "num_ok n"
  shows "spell_num n \<noteq> [] \<and> hd (spell_num n) \<in> set ''-0123456789''"
proof -
  obtain neg ip fr ex where n: "n = NumLit neg ip fr ex" by (cases n)
  with assms have ip: "ip \<noteq> []" "IsDigit (hd ip)"
    by (auto simp: digits_def IsDigit_def list_all_iff)
  from IsDigit_set [OF ip(2)] ip(1) show ?thesis unfolding n by (cases neg) simp_all
qed

lemma spelling_head:
  "stoken_ok t \<Longrightarrow> spelling t \<noteq> [] \<and> \<not> isSpace (hd (spelling t))"
proof (cases t)
  case (SNumber n)
  assume "stoken_ok t"
  with SNumber spell_num_head [of n] show ?thesis
    by (auto simp: isSpace_def)
qed (simp_all add: isSpace_def)

subsection \<open>One token\<close>

lemma NextToken_spelling:
  assumes d: "drop k s = w @ spelling t @ r" and w: "list_all isSpace w"
    and ok: "stoken_ok t" and b: "is_word t \<Longrightarrow> boundary r"
  shows "NextToken (lex_at s k) =
           ((\<lparr>Type = kind t, Value = payload t, Pos = int (k + length w)\<rparr>, None),
            lex_at s (k + length w + length (spelling t)))"
proof -
  define k' where "k' = k + length w"
  from spelling_head [OF ok] have "stop isSpace (spelling t @ r)"
    by (cases "spelling t") simp_all
  then have sk: "skipWhitespace (lex_at s k) = lex_at s k'"
    unfolding k'_def using skipWhitespace_run [OF d w] by (simp add: stop_def)
  have d': "drop k' s = spelling t @ r" unfolding k'_def by (rule drop_append_eq [OF d])
  show ?thesis
  proof (cases t)
    case SLeftBrace
    with d' have "k' < length s" "s ! k' = CHR ''{''" by (simp_all add: drop_Cons_iff)
    then show ?thesis using SLeftBrace by (simp add: NextToken_def sk k'_def)
  next
    case SRightBrace
    with d' have "k' < length s" "s ! k' = CHR ''}''" by (simp_all add: drop_Cons_iff)
    then show ?thesis using SRightBrace by (simp add: NextToken_def sk k'_def)
  next
    case SLeftBracket
    with d' have "k' < length s" "s ! k' = CHR ''[''" by (simp_all add: drop_Cons_iff)
    then show ?thesis using SLeftBracket by (simp add: NextToken_def sk k'_def)
  next
    case SRightBracket
    with d' have "k' < length s" "s ! k' = CHR '']''" by (simp_all add: drop_Cons_iff)
    then show ?thesis using SRightBracket by (simp add: NextToken_def sk k'_def)
  next
    case SColon
    with d' have "k' < length s" "s ! k' = CHR '':''" by (simp_all add: drop_Cons_iff)
    then show ?thesis using SColon by (simp add: NextToken_def sk k'_def)
  next
    case SComma
    with d' have "k' < length s" "s ! k' = CHR '',''" by (simp_all add: drop_Cons_iff)
    then show ?thesis using SComma by (simp add: NextToken_def sk k'_def)
  next
    case (SString items)
    with d' have dd: "drop k' s = CHR 0x22 # body items @ CHR 0x22 # r" by simp
    then have c: "k' < length s" "s ! k' = CHR 0x22" by (simp_all add: drop_Cons_iff)
    from ok SString have "\<forall>it\<in>set items. item_ok it" by (simp add: items_ok_def list_all_iff)
    from readString_literal [OF this dd]
    have "readString (lex_at s k') = (Inr (scanned items), lex_at s (k' + length (body items) + 2))"
      by (simp add: scanned_def)
    then show ?thesis using SString c by (simp add: NextToken_def sk k'_def)
  next
    case (SNumber n)
    obtain neg ip fr ex where n: "n = NumLit neg ip fr ex" by (cases n)
    from ok SNumber n have nok: "num_ok (NumLit neg ip fr ex)" by simp
    from d' SNumber n have dd: "drop k' s = spell_num (NumLit neg ip fr ex) @ r" by simp
    from b SNumber have br: "boundary r" by simp
    note rn = readNumber_literal [OF nok dd br]
    from spell_num_head [OF nok] dd
    have c: "k' < length s" "s ! k' \<in> set ''-0123456789''"
      by (cases "spell_num (NumLit neg ip fr ex)"; simp add: drop_Cons_iff; fastforce)+
    then have c': "s ! k' \<noteq> CHR 0x00" "s ! k' \<noteq> CHR ''{''" "s ! k' \<noteq> CHR ''}''" "s ! k' \<noteq> CHR ''[''"
       "s ! k' \<noteq> CHR '']''" "s ! k' \<noteq> CHR '':''" "s ! k' \<noteq> CHR '',''" "s ! k' \<noteq> CHR 0x22"
      by auto
    show ?thesis using SNumber n c c' rn by (simp add: NextToken_def sk k'_def)
  next
    case STrue
    with d' b have dd: "drop k' s = ''true'' @ r" and br: "boundary r" by simp_all
    from dd have c: "k' < length s" "s ! k' = CHR ''t''" by (simp_all add: drop_Cons_iff)
    have "list_all IsLetter ''true''" by (simp add: IsLetter_def)
    from readIdentifier_word [OF dd this br] c STrue show ?thesis
      by (simp add: NextToken_def sk k'_def IsLetter_def)
  next
    case SFalse
    with d' b have dd: "drop k' s = ''false'' @ r" and br: "boundary r" by simp_all
    from dd have c: "k' < length s" "s ! k' = CHR ''f''" by (simp_all add: drop_Cons_iff)
    have "list_all IsLetter ''false''" by (simp add: IsLetter_def)
    from readIdentifier_word [OF dd this br] c SFalse show ?thesis
      by (simp add: NextToken_def sk k'_def IsLetter_def)
  next
    case SNull
    with d' b have dd: "drop k' s = ''null'' @ r" and br: "boundary r" by simp_all
    from dd have c: "k' < length s" "s ! k' = CHR ''n''" by (simp_all add: drop_Cons_iff)
    have "list_all IsLetter ''null''" by (simp add: IsLetter_def)
    from readIdentifier_word [OF dd this br] c SNull show ?thesis
      by (simp add: NextToken_def sk k'_def IsLetter_def)
  qed
qed

section \<open>A number that begins with a zero\<close>

text \<open>
  C6. The claim: the scanner takes the maximal digit run as the integer part, so that for
  an input whose number begins \<^verbatim>\<open>01\<close> the number lexeme spans \<^verbatim>\<open>01\<close>. The code has a branch
  of its own for a leading \<^verbatim>\<open>0\<close>, which reads that one digit and no more: on the input
  \<^verbatim>\<open>01\<close> the lexeme is \<^verbatim>\<open>0\<close>.
\<close>

theorem NextToken_01:
  "Value (fst (fst (NextToken (NewLexer ''01'')))) = ''0''
   \<and> Value (fst (fst (NextToken (NewLexer ''01'')))) \<noteq> ''01''"
  by code_simp

text \<open>
  C6, amended. When the integer part of a number begins with \<^verbatim>\<open>0\<close> and another digit
  follows, the scanner takes the single \<^verbatim>\<open>0\<close>, with the sign before it if there is one, as
  the number lexeme, reports no error, and stops on the following digit, which begins the
  next token, a number as well. This holds wherever the number stands in the input (the
  lexer has read \<open>k\<close> bytes of it) and after any whitespace \<open>w\<close>. A leading-zero form such
  as \<^verbatim>\<open>01\<close> is not rejected by the scanner, and is not one lexeme either.
\<close>

theorem NextToken_leading_zero:
  assumes d: "drop k s = w @ sg @ CHR ''0'' # d # rest" and w: "list_all isSpace w"
    and sg: "sg = [] \<or> sg = ''-''" and dg: "IsDigit d"
  shows "NextToken (lex_at s k) =
           ((\<lparr>Type = TokenNumber, Value = sg @ ''0'', Pos = int (k + length w)\<rparr>, None),
            lex_at s (k + length w + length sg + 1))
         \<and> (\<exists>v l'. NextToken (lex_at s (k + length w + length sg + 1)) =
                ((\<lparr>Type = TokenNumber, Value = v, Pos = int (k + length w + length sg + 1)\<rparr>, None),
                 l'))"
proof -
  define k' where "k' = k + length w"
  define k2 where "k2 = k + length w + length sg + 1"
  have dd: "d \<noteq> CHR ''.''" "d \<noteq> CHR ''e''" "d \<noteq> CHR ''E''"
    using dg by (auto simp: IsDigit_def)
  have d': "drop k' s = sg @ CHR ''0'' # d # rest"
    unfolding k'_def by (rule drop_append_eq [OF d])
  have "case sg @ CHR ''0'' # d # rest of [] \<Rightarrow> True | c # _ \<Rightarrow> \<not> isSpace c"
    using sg by (auto simp: isSpace_def)
  from skipWhitespace_run [OF d w this]
  have sk: "skipWhitespace (lex_at s k) = lex_at s k'" by (simp add: k'_def)
  have first: "NextToken (lex_at s k) =
           ((\<lparr>Type = TokenNumber, Value = sg @ ''0'', Pos = int (k + length w)\<rparr>, None),
            lex_at s k2)"
    using sg
  proof
    assume e: "sg = []"
    with d' have c: "k' < length s" "s ! k' = CHR ''0''" "Suc k' < length s" "s ! Suc k' = d"
      by (simp_all add: drop_Cons_iff)
    have sl: "slice s k' (Suc k') = ''0''"
      using slice_drop [of k' s "''0''" "d # rest"] d' e by simp
    have rn: "readNumber (lex_at s k') = (''0'', lex_at s (Suc k'))"
      using c dd sl by (simp add: readNumber_def Let_def)
    show ?thesis using c e rn by (simp add: NextToken_def sk k'_def k2_def)
  next
    assume e: "sg = ''-''"
    with d' have c: "k' < length s" "s ! k' = CHR ''-''" "Suc k' < length s" "s ! Suc k' = CHR ''0''"
        "Suc (Suc k') < length s" "s ! Suc (Suc k') = d"
      by (simp_all add: drop_Cons_iff)
    have sl: "slice s k' (Suc (Suc k')) = ''-0''"
      using slice_drop [of k' s "''-0''" "d # rest"] d' e by simp
    have rn: "readNumber (lex_at s k') = (''-0'', lex_at s (Suc (Suc k')))"
      using c dd sl by (simp add: readNumber_def Let_def)
    show ?thesis using c e rn by (simp add: NextToken_def sk k'_def k2_def)
  qed
  have "drop k2 s = d # rest"
    using drop_append_eq [of k s "w @ sg @ ''0''" "d # rest"] d by (simp add: k2_def add.assoc)
  then have c2: "k2 < length s" "s ! k2 = d" and d2: "drop k2 s = [] @ d # rest"
    by (simp_all add: drop_Cons_iff)
  have "\<not> isSpace d" using dg by (auto simp: isSpace_def IsDigit_def)
  then have "skipWhitespace (lex_at s k2) = lex_at s k2"
    using skipWhitespace_run [OF d2] by simp
  moreover have "d \<in> set ''-0123456789''" using IsDigit_set [OF dg] by simp
  moreover have "d \<noteq> CHR 0x00" "d \<noteq> CHR ''{''" "d \<noteq> CHR ''}''" "d \<noteq> CHR ''[''"
       "d \<noteq> CHR '']''" "d \<noteq> CHR '':''" "d \<noteq> CHR '',''" "d \<noteq> CHR 0x22"
    using dg by (auto simp: IsDigit_def)
  ultimately have "\<exists>v l'. NextToken (lex_at s k2) =
                ((\<lparr>Type = TokenNumber, Value = v, Pos = int k2\<rparr>, None), l')"
    using c2 by (cases "readNumber (lex_at s k2)") (simp add: NextToken_def)
  with first show ?thesis unfolding k2_def by simp
qed

theorem NextToken_leading_zero_witness:
  "list_all isSpace [] \<and> IsDigit (CHR ''1'')
   \<and> NextToken (NewLexer ''01'') =
       ((\<lparr>Type = TokenNumber, Value = ''0'', Pos = 0\<rparr>, None), lex_at ''01'' (Suc 0))
   \<and> list_all isSpace '' '' \<and> IsDigit (CHR ''7'')
   \<and> NextToken (lex_at ''[ -07]'' (Suc 0)) =
       ((\<lparr>Type = TokenNumber, Value = ''-0'', Pos = 2\<rparr>, None), lex_at ''[ -07]'' 4)"
  using NextToken_leading_zero [of 0 "''01''" "[]" "[]" "CHR ''1''" "[]"]
    NextToken_leading_zero [of "Suc 0" "''[ -07]''" "'' ''" "''-''" "CHR ''7''" "'']''"]
  by (simp add: IsDigit_def isSpace_def NewLexer_lex_at)

section \<open>The parser on well-formed documents\<close>

text \<open>
  On the text of a well-formed document, in any layout and followed by any text that does
  not continue its last token, \<^verbatim>\<open>Parse\<close> returns the outcome of the document: the error of
  \<open>pf\<close> for the first number that \<open>pf\<close> rejects, or else the value (lemma
  \<open>parse_document\<close>).
\<close>

lemma parseObject_mono:
  "parseObject pf n p = Some r \<Longrightarrow> n \<le> m \<Longrightarrow> parseObject pf m p = Some r"
  by (induction m) (auto simp: le_Suc_eq parse_Suc simp del: parseObject.simps)

lemma parseObject_loop_mono:
  "parseObject_loop pf n obj p = Some r \<Longrightarrow> n \<le> m \<Longrightarrow> parseObject_loop pf m obj p = Some r"
  by (induction m) (auto simp: le_Suc_eq parse_Suc simp del: parseObject_loop.simps)

lemma parseArray_mono:
  "parseArray pf n p = Some r \<Longrightarrow> n \<le> m \<Longrightarrow> parseArray pf m p = Some r"
  by (induction m) (auto simp: le_Suc_eq parse_Suc simp del: parseArray.simps)

lemma parseArray_loop_mono:
  "parseArray_loop pf n arr p = Some r \<Longrightarrow> n \<le> m \<Longrightarrow> parseArray_loop pf m arr p = Some r"
  by (induction m) (auto simp: le_Suc_eq parse_Suc simp del: parseArray_loop.simps)

declare parseValue.simps [simp del] parseObject.simps [simp del] parseObject_loop.simps [simp del]
  parseArray.simps [simp del] parseArray_loop.simps [simp del]

lemma lay_Cons:
  "lay ws (t # ts) = (case ws of [] \<Rightarrow> [] | w # _ \<Rightarrow> w) @ spelling t @ lay (tl ws) ts"
  by (cases ws) simp_all

lemma spaces_tl: "spaces ws \<Longrightarrow> spaces (tl ws)"
  by (cases ws) (simp_all add: spaces_def)

lemma spaces_hd: "spaces ws \<Longrightarrow> list_all isSpace (case ws of [] \<Rightarrow> [] | w # _ \<Rightarrow> w)"
  by (cases ws) (simp_all add: spaces_def)

lemma boundary_space: "list_all isSpace w \<Longrightarrow> w \<noteq> [] \<Longrightarrow> boundary (w @ r)"
  by (cases w) (auto simp: boundary_def isSpace_def IsDigit_def IsLetter_def)

lemma boundary_spelling: "\<not> is_word t \<Longrightarrow> boundary (spelling t @ r)"
  by (cases t) (simp_all add: boundary_def IsDigit_def IsLetter_def)


lemma boundary_lay:
  assumes "spaces ws" "follow ts R"
  shows "boundary (lay ws ts @ R)"
proof (cases ts)
  case Nil
  with assms show ?thesis by (simp add: follow_def)
next
  case (Cons t ts')
  with assms(2) have nw: "\<not> is_word t" by (simp add: follow_def)
  show ?thesis
  proof (cases "(case ws of [] \<Rightarrow> [] | w # _ \<Rightarrow> w) = []")
    case True
    then show ?thesis using Cons boundary_spelling [OF nw] by (simp add: lay_Cons)
  next
    case False
    from boundary_space [OF spaces_hd [OF assms(1)] False] Cons show ?thesis
      by (simp add: lay_Cons)
  qed
qed

lemma advance_pending:
  assumes "pending (lexer p) (t # ts) R" "stoken_ok t" "is_word t \<Longrightarrow> follow ts R"
  shows "\<exists>p'. advance p = (None, p') \<and> Type (curToken p') = kind t
            \<and> Value (curToken p') = payload t \<and> pending (lexer p') ts R"
proof -
  from assms(1) obtain s k ws where l: "lexer p = lex_at s k"
    and d: "drop k s = lay ws (t # ts) @ R" and ws: "spaces ws"
    by (auto simp: pending_def)
  define w where "w = (case ws of [] \<Rightarrow> [] | w # _ \<Rightarrow> w)"
  have d': "drop k s = w @ spelling t @ (lay (tl ws) ts @ R)"
    using d by (simp add: lay_Cons w_def)
  have w: "list_all isSpace w" unfolding w_def by (rule spaces_hd [OF ws])
  have b: "boundary (lay (tl ws) ts @ R)" if "is_word t"
    by (rule boundary_lay [OF spaces_tl [OF ws] assms(3) [OF that]])
  note nt = NextToken_spelling [OF d' w assms(2) b]
  have "drop (k + length w + length (spelling t)) s = lay (tl ws) ts @ R"
    using drop_append_eq [of k s "w @ spelling t" "lay (tl ws) ts @ R"] d' by (simp add: add.assoc)
  then have "pending (lex_at s (k + length w + length (spelling t))) ts R"
    using spaces_tl [OF ws] by (auto simp: pending_def)
  then show ?thesis using nt l by (simp add: advance_def)
qed

lemma parses_value:
  assumes "parses pf v" "rejected pf v = None" "Type (curToken p) = kind (hd (tokens v))"
    "Value (curToken p) = payload (hd (tokens v))" "pending (lexer p) (tl (tokens v) @ ts) R"
  obtains n q where "parseValue pf n p = Some (Inr (sem pf v), snd (advance q))"
    "pending (lexer q) ts R"
  using assms(1) [unfolded parses_def, rule_format, OF assms(3,4,5)] assms(2) by auto

lemma parses_error:
  assumes "parses pf v" "rejected pf v = Some e" "Type (curToken p) = kind (hd (tokens v))"
    "Value (curToken p) = payload (hd (tokens v))" "pending (lexer p) (tl (tokens v) @ ts) R"
  obtains n q where "parseValue pf n p = Some (Inl e, q)"
  using assms(1) [unfolded parses_def, rule_format, OF assms(3,4,5)] assms(2) by auto

lemma tokens_nonempty [simp]: "tokens v \<noteq> []"
  by (cases v) simp_all

lemma hd_tokens_ok: "wf_json v \<Longrightarrow> stoken_ok (hd (tokens v))"
  by (cases v) simp_all

lemma hd_tokens_word: "is_word (hd (tokens v)) \<Longrightarrow> tl (tokens v) = []"
  by (cases v) simp_all

lemma hd_tokens_kind:
  "kind (hd (tokens v)) \<noteq> TokenRightBracket" "kind (hd (tokens v)) \<noteq> TokenRightBrace"
  by (cases v; simp)+

lemma commas_Cons: "tss \<noteq> [] \<Longrightarrow> commas (ts # tss) = ts @ SComma # commas tss"
  by (cases tss) simp_all

lemma hd_commas: "ts \<noteq> [] \<Longrightarrow> hd (commas (ts # tss)) = hd ts"
  by (cases tss) simp_all

lemma tl_commas: "ts \<noteq> [] \<Longrightarrow> tl (commas (ts # tss)) = tl ts @ (if tss = [] then [] else SComma # commas tss)"
  by (cases tss) simp_all

lemma tokens_JObject:
  "tokens (JObject kvs) = SLeftBrace # commas (map member kvs) @ [SRightBrace]"
proof -
  have "(\<lambda>(k, v). SString k # SColon # tokens v) = member"
    by (auto simp: member_def fun_eq_iff)
  then show ?thesis by simp
qed

lemma advance_value:
  assumes "pending (lexer p) (tokens v @ t # ts) R" "wf_json v" "\<not> is_word t"
  shows "\<exists>p'. advance p = (None, p') \<and> Type (curToken p') = kind (hd (tokens v))
            \<and> Value (curToken p') = payload (hd (tokens v))
            \<and> pending (lexer p') (tl (tokens v) @ t # ts) R"
proof -
  have e: "tokens v @ t # ts = hd (tokens v) # (tl (tokens v) @ t # ts)" by simp
  have "follow (tl (tokens v) @ t # ts) R" if "is_word (hd (tokens v))"
    using hd_tokens_word [OF that] assms(3) by (simp add: follow_def)
  from advance_pending [OF assms(1) [unfolded e] hd_tokens_ok [OF assms(2)] this]
  show ?thesis .
qed

subsection \<open>The elements of an array\<close>

lemma array_fail:
  assumes "parses pf v" "rejected pf v = Some e" "Type (curToken p) = kind (hd (tokens v))"
    "Value (curToken p) = payload (hd (tokens v))" "pending (lexer p) (tl (tokens v) @ ts) R"
  shows "\<exists>n q. parseArray_loop pf n arr p = Some (Inl e, q)"
proof -
  from parses_error [OF assms] obtain n q where "parseValue pf n p = Some (Inl e, q)" by blast
  then have "parseArray_loop pf (Suc n) arr p = Some (Inl e, q)"
    by (simp add: parseArray_loop.simps(2))
  then show ?thesis by blast
qed

lemma array_last:
  assumes "parses pf v" "rejected pf v = None" "Type (curToken p) = kind (hd (tokens v))"
    "Value (curToken p) = payload (hd (tokens v))"
    "pending (lexer p) (tl (tokens v) @ SRightBracket # ts) R"
  shows "\<exists>n q. parseArray_loop pf n arr p = Some (Inr (arr @ [sem pf v]), snd (advance q))
           \<and> pending (lexer q) ts R"
proof -
  from parses_value [OF assms] obtain n q1
    where 1: "parseValue pf n p = Some (Inr (sem pf v), snd (advance q1))"
      and 2: "pending (lexer q1) (SRightBracket # ts) R" by blast
  from advance_pending [OF 2] obtain p2
    where 3: "advance q1 = (None, p2)" "Type (curToken p2) = TokenRightBracket"
      "pending (lexer p2) ts R" by auto
  have "parseArray_loop pf (Suc n) arr p = Some (Inr (arr @ [sem pf v]), snd (advance p2))"
    using 1 3 by (simp add: parseArray_loop.simps(2))
  with 3(3) show ?thesis by blast
qed

lemma array_step:
  assumes "parses pf v" "rejected pf v = None" "Type (curToken p) = kind (hd (tokens v))"
    "Value (curToken p) = payload (hd (tokens v))"
    "pending (lexer p) (tl (tokens v) @ SComma # tokens v' @ t # ts) R"
    and wf': "wf_json v'" and nw: "\<not> is_word t"
  shows "\<exists>n p3. (\<forall>m\<ge>n. \<forall>arr. parseArray_loop pf (Suc m) arr p
                      = parseArray_loop pf m (arr @ [sem pf v]) p3)
           \<and> Type (curToken p3) = kind (hd (tokens v'))
           \<and> Value (curToken p3) = payload (hd (tokens v'))
           \<and> pending (lexer p3) (tl (tokens v') @ t # ts) R"
proof -
  from parses_value [OF assms(1-5)] obtain n q1
    where 1: "parseValue pf n p = Some (Inr (sem pf v), snd (advance q1))"
      and 2: "pending (lexer q1) (SComma # tokens v' @ t # ts) R" by blast
  from advance_pending [OF 2] obtain p2
    where 3: "advance q1 = (None, p2)" "Type (curToken p2) = TokenComma"
      "pending (lexer p2) (tokens v' @ t # ts) R" by auto
  from advance_value [OF 3(3) wf' nw] obtain p3
    where 4: "advance p2 = (None, p3)" "Type (curToken p3) = kind (hd (tokens v'))"
      "Value (curToken p3) = payload (hd (tokens v'))"
      "pending (lexer p3) (tl (tokens v') @ t # ts) R" by blast
  have "parseArray_loop pf (Suc m) arr p = parseArray_loop pf m (arr @ [sem pf v]) p3"
    if "n \<le> m" for m arr
    using parseValue_mono [OF 1 that] 3 4 by (simp add: parseArray_loop.simps(2))
  with 4 show ?thesis by blast
qed

lemma array_loop:
  assumes "\<forall>v\<in>set vs. wf_json v \<and> parses pf v" "vs \<noteq> []"
    and "Type (curToken p) = kind (hd (tokens (hd vs)))"
    and "Value (curToken p) = payload (hd (tokens (hd vs)))"
    and "pending (lexer p) (tl (commas (map tokens vs)) @ SRightBracket # ts) R"
  shows "case first_some (map (rejected pf) vs) of
           None \<Rightarrow> (\<exists>n q. parseArray_loop pf n arr p
                              = Some (Inr (arr @ map (sem pf) vs), snd (advance q))
                          \<and> pending (lexer q) ts R)
         | Some e \<Rightarrow> (\<exists>n q. parseArray_loop pf n arr p = Some (Inl e, q))"
  using assms
proof (induction vs arbitrary: arr p)
  case Nil
  then show ?case by simp
next
  case (Cons v vs)
  from Cons.prems(1) have pv: "parses pf v" by simp
  from Cons.prems(3,4) have cur: "Type (curToken p) = kind (hd (tokens v))"
      "Value (curToken p) = payload (hd (tokens v))" by simp_all
  show ?case
  proof (cases "rejected pf v")
    case (Some e)
    have "\<exists>ts'. tl (commas (map tokens (v # vs))) @ SRightBracket # ts = tl (tokens v) @ ts'"
      by (simp add: tl_commas)
    with Cons.prems(5) obtain ts' where "pending (lexer p) (tl (tokens v) @ ts') R" by auto
    from array_fail [OF pv Some cur this] Some show ?thesis by simp
  next
    case None
    show ?thesis
    proof (cases "vs = []")
      case True
      with Cons.prems(5) have "pending (lexer p) (tl (tokens v) @ SRightBracket # ts) R" by simp
      from array_last [OF pv None cur this] True None show ?thesis by simp
    next
      case False
      then obtain v' vs' where vs: "vs = v' # vs'" by (cases vs) auto
      from Cons.prems(1) vs have wf': "wf_json v'" by simp
      define X where "X = (if vs' = [] then SRightBracket # ts
                           else SComma # commas (map tokens vs') @ SRightBracket # ts)"
      have X: "\<exists>t ts'. X = t # ts' \<and> \<not> is_word t" by (simp add: X_def)
      then obtain t ts' where Xt: "X = t # ts'" and nw: "\<not> is_word t" by blast
      have e1: "tl (commas (map tokens (v # vs))) @ SRightBracket # ts
                  = tl (tokens v) @ SComma # tokens v' @ X"
        using vs by (cases "vs' = []") (simp_all add: tl_commas X_def commas_Cons)
      have e2: "tl (tokens v') @ X = tl (commas (map tokens vs)) @ SRightBracket # ts"
        using vs by (simp add: X_def tl_commas)
      from Cons.prems(5) e1 Xt
      have "pending (lexer p) (tl (tokens v) @ SComma # tokens v' @ t # ts') R" by simp
      from array_step [OF pv None cur this wf' nw] obtain n p3
        where st: "\<And>m arr. n \<le> m \<Longrightarrow> parseArray_loop pf (Suc m) arr p
                      = parseArray_loop pf m (arr @ [sem pf v]) p3"
          and c3: "Type (curToken p3) = kind (hd (tokens v'))"
            "Value (curToken p3) = payload (hd (tokens v'))"
          and p3: "pending (lexer p3) (tl (tokens v') @ t # ts') R" by blast
      from p3 Xt e2 have p3': "pending (lexer p3) (tl (commas (map tokens vs)) @ SRightBracket # ts) R"
        by simp
      from Cons.prems(1) have all: "\<forall>v\<in>set vs. wf_json v \<and> parses pf v" by simp
      have c3': "Type (curToken p3) = kind (hd (tokens (hd vs)))"
          "Value (curToken p3) = payload (hd (tokens (hd vs)))"
        using c3 vs by simp_all
      note ih = Cons.IH [OF all False c3' p3', of "arr @ [sem pf v]"]
      show ?thesis
      proof (cases "first_some (map (rejected pf) vs)")
        case N: None
        with ih obtain m q
          where 5: "parseArray_loop pf m (arr @ [sem pf v]) p3
                      = Some (Inr ((arr @ [sem pf v]) @ map (sem pf) vs), snd (advance q))"
            and 6: "pending (lexer q) ts R" by auto
        have "parseArray_loop pf (Suc (max n m)) arr p
                = Some (Inr (arr @ map (sem pf) (v # vs)), snd (advance q))"
          using st [of "max n m" arr] parseArray_loop_mono [OF 5, of "max n m"] by simp
        with 6 None N show ?thesis by auto
      next
        case S: (Some e)
        with ih obtain m q
          where 5: "parseArray_loop pf m (arr @ [sem pf v]) p3 = Some (Inl e, q)" by auto
        have "parseArray_loop pf (Suc (max n m)) arr p = Some (Inl e, q)"
          using st [of "max n m" arr] parseArray_loop_mono [OF 5, of "max n m"] by simp
        with None S show ?thesis by auto
      qed
    qed
  qed
qed


subsection \<open>The members of an object\<close>

lemma map_add_rev_Cons: "m(a \<mapsto> b) ++ map_of (rev xs) = m ++ map_of (rev ((a, b) # xs))"
proof -
  have "m(a \<mapsto> b) ++ map_of (rev xs) = (m ++ [a \<mapsto> b]) ++ map_of (rev xs)" by simp
  also have "\<dots> = m ++ ([a \<mapsto> b] ++ map_of (rev xs))" by (rule map_add_assoc [symmetric])
  also have "[a \<mapsto> b] ++ map_of (rev xs) = map_of (rev ((a, b) # xs))" by simp
  finally show ?thesis .
qed

lemma member_value:
  assumes "pending (lexer p) (SColon # tokens v @ t # ts) R" "wf_json v" "\<not> is_word t"
  shows "\<exists>p1 p1'. advance p = (None, p1) \<and> Type (curToken p1) = TokenColon
           \<and> advance p1 = (None, p1') \<and> Type (curToken p1') = kind (hd (tokens v))
           \<and> Value (curToken p1') = payload (hd (tokens v))
           \<and> pending (lexer p1') (tl (tokens v) @ t # ts) R"
proof -
  from advance_pending [OF assms(1)] obtain p1
    where 1: "advance p = (None, p1)" "Type (curToken p1) = TokenColon"
      "pending (lexer p1) (tokens v @ t # ts) R" by auto
  from advance_value [OF 1(3) assms(2,3)] 1(1,2) show ?thesis by blast
qed

lemma object_fail:
  assumes "parses pf v" "rejected pf v = Some e" "wf_json v"
    and "Type (curToken p) = TokenString"
    and "pending (lexer p) (SColon # tokens v @ t # ts) R" "\<not> is_word t"
  shows "\<exists>n q. parseObject_loop pf n obj p = Some (Inl e, q)"
proof -
  from member_value [OF assms(5,3,6)] obtain p1 p1'
    where 1: "advance p = (None, p1)" "Type (curToken p1) = TokenColon"
      "advance p1 = (None, p1')" "Type (curToken p1') = kind (hd (tokens v))"
      "Value (curToken p1') = payload (hd (tokens v))"
      "pending (lexer p1') (tl (tokens v) @ t # ts) R" by blast
  from parses_error [OF assms(1,2) 1(4,5,6)] obtain n q
    where "parseValue pf n p1' = Some (Inl e, q)" by blast
  then have "parseObject_loop pf (Suc n) obj p = Some (Inl e, q)"
    using assms(4) 1(1,2,3) by (simp add: parseObject_loop.simps(2) Let_def)
  then show ?thesis by blast
qed

lemma object_last:
  assumes "parses pf v" "rejected pf v = None" "wf_json v"
    and "Type (curToken p) = TokenString" "Value (curToken p) = key"
    and "pending (lexer p) (SColon # tokens v @ SRightBrace # ts) R"
  shows "\<exists>n q. parseObject_loop pf n obj p = Some (Inr (obj(key \<mapsto> sem pf v)), snd (advance q))
           \<and> pending (lexer q) ts R"
proof -
  from member_value [OF assms(6,3)] obtain p1 p1'
    where 1: "advance p = (None, p1)" "Type (curToken p1) = TokenColon"
      "advance p1 = (None, p1')" "Type (curToken p1') = kind (hd (tokens v))"
      "Value (curToken p1') = payload (hd (tokens v))"
      "pending (lexer p1') (tl (tokens v) @ SRightBrace # ts) R" by auto
  from parses_value [OF assms(1,2) 1(4,5,6)] obtain n q1
    where 2: "parseValue pf n p1' = Some (Inr (sem pf v), snd (advance q1))"
      and 3: "pending (lexer q1) (SRightBrace # ts) R" by blast
  from advance_pending [OF 3] obtain p2
    where 4: "advance q1 = (None, p2)" "Type (curToken p2) = TokenRightBrace"
      "pending (lexer p2) ts R" by auto
  have "parseObject_loop pf (Suc n) obj p = Some (Inr (obj(key \<mapsto> sem pf v)), snd (advance p2))"
    using assms(4,5) 1(1,2,3) 2 4 by (simp add: parseObject_loop.simps(2) Let_def)
  with 4(3) show ?thesis by blast
qed

lemma object_step:
  assumes "parses pf v" "rejected pf v = None" "wf_json v"
    and "Type (curToken p) = TokenString" "Value (curToken p) = key"
    and "pending (lexer p) (SColon # tokens v @ SComma # SString k' # ts) R"
    and k': "items_ok k'"
  shows "\<exists>n p3. (\<forall>m\<ge>n. \<forall>obj. parseObject_loop pf (Suc m) obj p
                      = parseObject_loop pf m (obj(key \<mapsto> sem pf v)) p3)
           \<and> Type (curToken p3) = TokenString \<and> Value (curToken p3) = scanned k'
           \<and> pending (lexer p3) ts R"
proof -
  from member_value [OF assms(6,3)] obtain p1 p1'
    where 1: "advance p = (None, p1)" "Type (curToken p1) = TokenColon"
      "advance p1 = (None, p1')" "Type (curToken p1') = kind (hd (tokens v))"
      "Value (curToken p1') = payload (hd (tokens v))"
      "pending (lexer p1') (tl (tokens v) @ SComma # SString k' # ts) R" by auto
  from parses_value [OF assms(1,2) 1(4,5,6)] obtain n q1
    where 2: "parseValue pf n p1' = Some (Inr (sem pf v), snd (advance q1))"
      and 3: "pending (lexer q1) (SComma # SString k' # ts) R" by blast
  from advance_pending [OF 3] obtain p2
    where 4: "advance q1 = (None, p2)" "Type (curToken p2) = TokenComma"
      "pending (lexer p2) (SString k' # ts) R" by auto
  from advance_pending [OF 4(3)] k' obtain p3
    where 5: "advance p2 = (None, p3)" "Type (curToken p3) = TokenString"
      "Value (curToken p3) = scanned k'" "pending (lexer p3) ts R" by auto
  have "parseObject_loop pf (Suc m) obj p = parseObject_loop pf m (obj(key \<mapsto> sem pf v)) p3"
    if "n \<le> m" for m obj
    using parseValue_mono [OF 2 that] assms(4,5) 1(1,2,3) 4 5
    by (simp add: parseObject_loop.simps(2) Let_def)
  with 5 show ?thesis by blast
qed

lemma object_loop:
  assumes "\<forall>kv\<in>set kvs. items_ok (fst kv) \<and> wf_json (snd kv) \<and> parses pf (snd kv)" "kvs \<noteq> []"
    and "Type (curToken p) = TokenString"
    and "Value (curToken p) = scanned (fst (hd kvs))"
    and "pending (lexer p) (tl (commas (map member kvs)) @ SRightBrace # ts) R"
  shows "case first_some (map (\<lambda>(k, v). rejected pf v) kvs) of
           None \<Rightarrow> (\<exists>n q. parseObject_loop pf n obj p
                       = Some (Inr (obj ++ map_of (rev (map (\<lambda>(k, v). (scanned k, sem pf v)) kvs))),
                               snd (advance q))
                     \<and> pending (lexer q) ts R)
         | Some e \<Rightarrow> (\<exists>n q. parseObject_loop pf n obj p = Some (Inl e, q))"
  using assms
proof (induction kvs arbitrary: obj p)
  case Nil
  then show ?case by simp
next
  case (Cons kv kvs)
  obtain k v where kv: "kv = (k, v)" by (cases kv)
  from Cons.prems(1) kv have wf: "wf_json v" and pv: "parses pf v" by simp_all
  from Cons.prems(3,4) kv have cur: "Type (curToken p) = TokenString" "Value (curToken p) = scanned k"
    by simp_all
  define X where "X = (if kvs = [] then SRightBrace # ts
                       else SComma # commas (map member kvs) @ SRightBrace # ts)"
  have X: "\<exists>t ts'. X = t # ts' \<and> \<not> is_word t" by (simp add: X_def)
  have mkv: "member kv = SString k # SColon # tokens v" by (simp add: member_def kv)
  from Cons.prems(5) have pend: "pending (lexer p) (SColon # tokens v @ X) R"
    by (cases "kvs = []") (simp_all add: tl_commas mkv X_def)
  show ?case
  proof (cases "rejected pf v")
    case (Some e)
    from X obtain t ts' where "X = t # ts'" "\<not> is_word t" by blast
    with pend have "pending (lexer p) (SColon # tokens v @ t # ts') R" by simp
    from object_fail [OF pv Some wf cur(1) this \<open>\<not> is_word t\<close>] Some kv show ?thesis by simp
  next
    case None
    show ?thesis
    proof (cases "kvs = []")
      case True
      with pend have "pending (lexer p) (SColon # tokens v @ SRightBrace # ts) R" by (simp add: X_def)
      from object_last [OF pv None wf cur this, of obj] obtain n q
        where 1: "parseObject_loop pf n obj p = Some (Inr (obj(scanned k \<mapsto> sem pf v)), snd (advance q))"
          and 2: "pending (lexer q) ts R" by blast
      have "obj(scanned k \<mapsto> sem pf v)
          = obj ++ map_of (rev (map (\<lambda>(k, v). (scanned k, sem pf v)) (kv # kvs)))"
        using True kv map_add_rev_Cons [of obj "scanned k" "sem pf v" "[]"] by simp
      with 1 have "parseObject_loop pf n obj p
          = Some (Inr (obj ++ map_of (rev (map (\<lambda>(k, v). (scanned k, sem pf v)) (kv # kvs)))),
                  snd (advance q))" by simp
      with 2 have "\<exists>n q. parseObject_loop pf n obj p
          = Some (Inr (obj ++ map_of (rev (map (\<lambda>(k, v). (scanned k, sem pf v)) (kv # kvs)))),
                  snd (advance q)) \<and> pending (lexer q) ts R" by blast
      moreover have "first_some (map (\<lambda>(k, v). rejected pf v) (kv # kvs)) = None"
        using True None kv by simp
      ultimately show ?thesis by (simp only: option.case)
    next
      case False
      then obtain k' v' kvs' where kvs: "kvs = (k', v') # kvs'" by (cases kvs) auto
      from Cons.prems(1) kvs have lk: "items_ok k'" by simp
      have e1: "commas (map member kvs) @ SRightBrace # ts
              = SString k' # (tl (commas (map member kvs)) @ SRightBrace # ts)"
        using kvs by (cases kvs') (simp_all add: member_def)
      from pend False e1
      have "pending (lexer p) (SColon # tokens v @ SComma # SString k'
                                 # (tl (commas (map member kvs)) @ SRightBrace # ts)) R"
        by (simp add: X_def)
      from object_step [OF pv None wf cur this lk] obtain n p3
        where st: "\<And>m obj. n \<le> m \<Longrightarrow> parseObject_loop pf (Suc m) obj p
                      = parseObject_loop pf m (obj(scanned k \<mapsto> sem pf v)) p3"
          and c3: "Type (curToken p3) = TokenString" "Value (curToken p3) = scanned k'"
          and p3: "pending (lexer p3) (tl (commas (map member kvs)) @ SRightBrace # ts) R"
        by blast
      from Cons.prems(1)
      have all: "\<forall>kv\<in>set kvs. items_ok (fst kv) \<and> wf_json (snd kv) \<and> parses pf (snd kv)" by simp
      have c3': "Value (curToken p3) = scanned (fst (hd kvs))" using c3(2) kvs by simp
      note ih = Cons.IH [OF all False c3(1) c3' p3, of "obj(scanned k \<mapsto> sem pf v)"]
      have fs: "first_some (map (\<lambda>(k, v). rejected pf v) (kv # kvs))
                  = first_some (map (\<lambda>(k, v). rejected pf v) kvs)"
        using None kv by simp
      have me: "obj(scanned k \<mapsto> sem pf v)
            ++ map_of (rev (map (\<lambda>(k, v). (scanned k, sem pf v)) kvs))
          = obj ++ map_of (rev (map (\<lambda>(k, v). (scanned k, sem pf v)) (kv # kvs)))"
        using kv map_add_rev_Cons [of obj "scanned k" "sem pf v"] by simp
      show ?thesis
      proof (cases "first_some (map (\<lambda>(k, v). rejected pf v) kvs)")
        case N: None
        from ih [unfolded N option.case] obtain m q
          where 5: "parseObject_loop pf m (obj(scanned k \<mapsto> sem pf v)) p3
                      = Some (Inr (obj(scanned k \<mapsto> sem pf v)
                                     ++ map_of (rev (map (\<lambda>(k, v). (scanned k, sem pf v)) kvs))),
                              snd (advance q))"
            and 6: "pending (lexer q) ts R" by blast
        have "parseObject_loop pf (Suc (max n m)) obj p
                = parseObject_loop pf (max n m) (obj(scanned k \<mapsto> sem pf v)) p3"
          by (rule st) simp
        also have "\<dots> = Some (Inr (obj(scanned k \<mapsto> sem pf v)
                                     ++ map_of (rev (map (\<lambda>(k, v). (scanned k, sem pf v)) kvs))),
                              snd (advance q))"
          by (rule parseObject_loop_mono [OF 5]) simp
        finally have "parseObject_loop pf (Suc (max n m)) obj p
                = Some (Inr (obj ++ map_of (rev (map (\<lambda>(k, v). (scanned k, sem pf v)) (kv # kvs)))),
                        snd (advance q))"
          unfolding me .
        with 6 have "\<exists>n q. parseObject_loop pf n obj p
            = Some (Inr (obj ++ map_of (rev (map (\<lambda>(k, v). (scanned k, sem pf v)) (kv # kvs)))),
                    snd (advance q)) \<and> pending (lexer q) ts R" by blast
        then show ?thesis unfolding fs N by (simp only: option.case)
      next
        case S: (Some e)
        from ih [unfolded S option.case] obtain m q
          where 5: "parseObject_loop pf m (obj(scanned k \<mapsto> sem pf v)) p3 = Some (Inl e, q)"
          by blast
        have "parseObject_loop pf (Suc (max n m)) obj p
                = parseObject_loop pf (max n m) (obj(scanned k \<mapsto> sem pf v)) p3"
          by (rule st) simp
        also have "\<dots> = Some (Inl e, q)"
          by (rule parseObject_loop_mono [OF 5]) simp
        finally have "\<exists>n q. parseObject_loop pf n obj p = Some (Inl e, q)" by blast
        then show ?thesis unfolding fs S by (simp only: option.case)
      qed
    qed
  qed
qed


subsection \<open>Documents\<close>

lemma wf_parses: "wf_json v \<Longrightarrow> parses pf v"
proof (induction v)
  case JNull
  show ?case unfolding parses_def
  proof (intro allI impI)
    fix p :: Parser and ts R
    assume "Type (curToken p) = kind (hd (tokens JNull))"
      and "pending (lexer p) (tl (tokens JNull) @ ts) R"
    then have "parseValue pf (Suc 0) p = Some (Inr (sem pf JNull), snd (advance p))"
        "pending (lexer p) ts R"
      by (simp_all add: parseValue.simps(2))
    then have "\<exists>n q. parseValue pf n p = Some (Inr (sem pf JNull), snd (advance q)) \<and> pending (lexer q) ts R"
      by blast
    then show "case rejected pf JNull of
        None \<Rightarrow> \<exists>n q. parseValue pf n p = Some (Inr (sem pf JNull), snd (advance q)) \<and> pending (lexer q) ts R
      | Some e \<Rightarrow> \<exists>n q. parseValue pf n p = Some (Inl e, q)"
      by simp
  qed
next
  case (JBool b)
  show ?case unfolding parses_def
  proof (intro allI impI)
    fix p :: Parser and ts R
    assume "Type (curToken p) = kind (hd (tokens (JBool b)))"
      and "pending (lexer p) (tl (tokens (JBool b)) @ ts) R"
    then have "parseValue pf (Suc 0) p = Some (Inr (sem pf (JBool b)), snd (advance p))"
        "pending (lexer p) ts R"
      by (cases b; simp add: parseValue.simps(2))+
    then have "\<exists>n q. parseValue pf n p = Some (Inr (sem pf (JBool b)), snd (advance q)) \<and> pending (lexer q) ts R"
      by blast
    then show "case rejected pf (JBool b) of
        None \<Rightarrow> \<exists>n q. parseValue pf n p = Some (Inr (sem pf (JBool b)), snd (advance q)) \<and> pending (lexer q) ts R
      | Some e \<Rightarrow> \<exists>n q. parseValue pf n p = Some (Inl e, q)"
      by simp
  qed
next
  case (JNumber x)
  show ?case unfolding parses_def
  proof (intro allI impI)
    fix p :: Parser and ts R
    assume c: "Type (curToken p) = kind (hd (tokens (JNumber x)))"
      "Value (curToken p) = payload (hd (tokens (JNumber x)))"
      "pending (lexer p) (tl (tokens (JNumber x)) @ ts) R"
    show "case rejected pf (JNumber x) of
        None \<Rightarrow> \<exists>n q. parseValue pf n p = Some (Inr (sem pf (JNumber x)), snd (advance q)) \<and> pending (lexer q) ts R
      | Some e \<Rightarrow> \<exists>n q. parseValue pf n p = Some (Inl e, q)"
    proof (cases "pf (spell_num x)")
      case (Inl e)
      with c have "parseValue pf (Suc 0) p = Some (Inl e, p)"
        by (simp add: parseValue.simps(2))
      then have "\<exists>n q. parseValue pf n p = Some (Inl e, q)" by blast
      with Inl show ?thesis by simp
    next
      case (Inr y)
      with c have "parseValue pf (Suc 0) p = Some (Inr (sem pf (JNumber x)), snd (advance p))"
          "pending (lexer p) ts R"
        by (simp_all add: parseValue.simps(2))
      then have "\<exists>n q. parseValue pf n p = Some (Inr (sem pf (JNumber x)), snd (advance q)) \<and> pending (lexer q) ts R"
        by blast
      with Inr show ?thesis by simp
    qed
  qed
next
  case (JString x)
  show ?case unfolding parses_def
  proof (intro allI impI)
    fix p :: Parser and ts R
    assume "Type (curToken p) = kind (hd (tokens (JString x)))"
      and "Value (curToken p) = payload (hd (tokens (JString x)))"
      and "pending (lexer p) (tl (tokens (JString x)) @ ts) R"
    then have "parseValue pf (Suc 0) p = Some (Inr (sem pf (JString x)), snd (advance p))"
        "pending (lexer p) ts R"
      by (simp_all add: parseValue.simps(2))
    then have "\<exists>n q. parseValue pf n p = Some (Inr (sem pf (JString x)), snd (advance q)) \<and> pending (lexer q) ts R"
      by blast
    then show "case rejected pf (JString x) of
        None \<Rightarrow> \<exists>n q. parseValue pf n p = Some (Inr (sem pf (JString x)), snd (advance q)) \<and> pending (lexer q) ts R
      | Some e \<Rightarrow> \<exists>n q. parseValue pf n p = Some (Inl e, q)"
      by simp
  qed
next
  case (JArray vs)
  then have all: "\<forall>v\<in>set vs. wf_json v \<and> parses pf v" by (auto simp: list_all_iff)
  show ?case unfolding parses_def
  proof (intro allI impI)
    fix p :: Parser and ts R
    assume cur: "Type (curToken p) = kind (hd (tokens (JArray vs)))"
      and pend: "pending (lexer p) (tl (tokens (JArray vs)) @ ts) R"
    from cur have ty: "Type (curToken p) = TokenLeftBracket" by simp
    show "case rejected pf (JArray vs) of
        None \<Rightarrow> \<exists>n q. parseValue pf n p = Some (Inr (sem pf (JArray vs)), snd (advance q)) \<and> pending (lexer q) ts R
      | Some e \<Rightarrow> \<exists>n q. parseValue pf n p = Some (Inl e, q)"
    proof (cases "vs = []")
      case True
      with pend have "pending (lexer p) (SRightBracket # ts) R" by simp
      from advance_pending [OF this] obtain p1
        where 1: "advance p = (None, p1)" "Type (curToken p1) = TokenRightBracket"
          "pending (lexer p1) ts R" by auto
      have "parseValue pf (Suc (Suc 0)) p = Some (Inr (sem pf (JArray vs)), snd (advance p1))"
        using ty 1 True by (simp add: parseValue.simps(2) parseArray.simps(2))
      with 1(3) have "\<exists>n q. parseValue pf n p = Some (Inr (sem pf (JArray vs)), snd (advance q)) \<and> pending (lexer q) ts R"
        by blast
      with True show ?thesis by simp
    next
      case False
      then obtain v vs' where vs: "vs = v # vs'" by (cases vs) auto
      define X where "X = (if vs' = [] then SRightBracket # ts
                           else SComma # commas (map tokens vs') @ SRightBracket # ts)"
      have X: "\<exists>t ts'. X = t # ts' \<and> \<not> is_word t" by (simp add: X_def)
      from pend vs have "pending (lexer p) (tokens v @ X) R"
        by (cases "vs' = []") (simp_all add: X_def commas_Cons)
      with X advance_value [of p v _ _ R] all vs obtain p1
        where 1: "advance p = (None, p1)" "Type (curToken p1) = kind (hd (tokens v))"
          "Value (curToken p1) = payload (hd (tokens v))"
          "pending (lexer p1) (tl (tokens v) @ X) R" by (metis list.set_intros(1))
      have "tl (tokens v) @ X = tl (commas (map tokens vs)) @ SRightBracket # ts"
        using vs by (simp add: X_def tl_commas)
      with 1(4) have 2: "pending (lexer p1) (tl (commas (map tokens vs)) @ SRightBracket # ts) R"
        by simp
      have c1: "Type (curToken p1) = kind (hd (tokens (hd vs)))"
          "Value (curToken p1) = payload (hd (tokens (hd vs)))"
        using 1(2,3) vs by simp_all
      note loop = array_loop [OF all False c1 2, of "[]"]
      have nb: "Type (curToken p1) \<noteq> TokenRightBracket" using 1(2) hd_tokens_kind(1) [of v] by simp
      show ?thesis
      proof (cases "first_some (map (rejected pf) vs)")
        case None
        with loop obtain n q
          where 3: "parseArray_loop pf n [] p1 = Some (Inr (map (sem pf) vs), snd (advance q))"
            and 4: "pending (lexer q) ts R" by auto
        have "parseValue pf (Suc (Suc n)) p = Some (Inr (sem pf (JArray vs)), snd (advance q))"
          using ty 1(1) 3 nb by (simp add: parseValue.simps(2) parseArray.simps(2))
        with 4 have "\<exists>n q. parseValue pf n p = Some (Inr (sem pf (JArray vs)), snd (advance q)) \<and> pending (lexer q) ts R"
          by blast
        with None show ?thesis by simp
      next
        case (Some e)
        with loop obtain n q where 3: "parseArray_loop pf n [] p1 = Some (Inl e, q)" by auto
        have "parseValue pf (Suc (Suc n)) p = Some (Inl e, q)"
          using ty 1(1) 3 nb by (simp add: parseValue.simps(2) parseArray.simps(2))
        then have "\<exists>n q. parseValue pf n p = Some (Inl e, q)" by blast
        with Some show ?thesis by simp
      qed
    qed
  qed
next
  case (JObject kvs)
  have all: "\<forall>kv\<in>set kvs. items_ok (fst kv) \<and> wf_json (snd kv) \<and> parses pf (snd kv)"
  proof
    fix kv assume kv: "kv \<in> set kvs"
    obtain k v where e: "kv = (k, v)" by (cases kv)
    with kv JObject.prems have "items_ok k" "wf_json v" by (auto simp: list_all_iff)
    moreover from JObject.IH [OF kv, of v] e this(2) have "parses pf v" by simp
    ultimately show "items_ok (fst kv) \<and> wf_json (snd kv) \<and> parses pf (snd kv)"
      using e by simp
  qed
  show ?case unfolding parses_def
  proof (intro allI impI)
    fix p :: Parser and ts R
    assume cur: "Type (curToken p) = kind (hd (tokens (JObject kvs)))"
      and pend: "pending (lexer p) (tl (tokens (JObject kvs)) @ ts) R"
    from cur have ty: "Type (curToken p) = TokenLeftBrace" by simp
    from pend have pend': "pending (lexer p) (commas (map member kvs) @ SRightBrace # ts) R"
      by (simp add: tokens_JObject del: tokens.simps)
    show "case rejected pf (JObject kvs) of
        None \<Rightarrow> \<exists>n q. parseValue pf n p = Some (Inr (sem pf (JObject kvs)), snd (advance q)) \<and> pending (lexer q) ts R
      | Some e \<Rightarrow> \<exists>n q. parseValue pf n p = Some (Inl e, q)"
    proof (cases "kvs = []")
      case True
      with pend' have "pending (lexer p) (SRightBrace # ts) R" by simp
      from advance_pending [OF this] obtain p1
        where 1: "advance p = (None, p1)" "Type (curToken p1) = TokenRightBrace"
          "pending (lexer p1) ts R" by auto
      have "parseValue pf (Suc (Suc 0)) p = Some (Inr (sem pf (JObject kvs)), snd (advance p1))"
        using ty 1 True by (simp add: parseValue.simps(2) parseObject.simps(2))
      with 1(3) have "\<exists>n q. parseValue pf n p = Some (Inr (sem pf (JObject kvs)), snd (advance q)) \<and> pending (lexer q) ts R"
        by blast
      with True show ?thesis by simp
    next
      case False
      then obtain k v kvs' where kvs: "kvs = (k, v) # kvs'" by (cases kvs) auto
      from all kvs have lk: "items_ok k" by simp
      have "commas (map member kvs) @ SRightBrace # ts
              = SString k # (tl (commas (map member kvs)) @ SRightBrace # ts)"
        using kvs by (cases kvs') (simp_all add: member_def)
      with pend' have "pending (lexer p) (SString k # (tl (commas (map member kvs)) @ SRightBrace # ts)) R"
        by simp
      from advance_pending [OF this] lk obtain p1
        where 1: "advance p = (None, p1)" "Type (curToken p1) = TokenString"
          "Value (curToken p1) = scanned k"
          "pending (lexer p1) (tl (commas (map member kvs)) @ SRightBrace # ts) R" by auto
      have c1: "Value (curToken p1) = scanned (fst (hd kvs))" using 1(3) kvs by simp
      note loop = object_loop [OF all False 1(2) c1 1(4), of Map.empty]
      have rj: "rejected pf (JObject kvs) = first_some (map (\<lambda>(k, v). rejected pf v) kvs)" by simp
      show ?thesis
      proof (cases "first_some (map (\<lambda>(k, v). rejected pf v) kvs)")
        case None
        from loop [unfolded None option.case] obtain n q
          where 3: "parseObject_loop pf n Map.empty p1
              = Some (Inr (Map.empty ++ map_of (rev (map (\<lambda>(k, v). (scanned k, sem pf v)) kvs))),
                      snd (advance q))"
            and 4: "pending (lexer q) ts R" by blast
        have "parseValue pf (Suc (Suc n)) p = Some (Inr (sem pf (JObject kvs)), snd (advance q))"
          using ty 1(1,2) 3 by (simp add: parseValue.simps(2) parseObject.simps(2))
        with 4 have "\<exists>n q. parseValue pf n p = Some (Inr (sem pf (JObject kvs)), snd (advance q)) \<and> pending (lexer q) ts R"
          by blast
        then show ?thesis unfolding rj None by (simp only: option.case)
      next
        case (Some e)
        from loop [unfolded Some option.case] obtain n q
          where 3: "parseObject_loop pf n Map.empty p1 = Some (Inl e, q)" by blast
        have "parseValue pf (Suc (Suc n)) p = Some (Inl e, q)"
          using ty 1(1,2) 3 by (simp add: parseValue.simps(2) parseObject.simps(2))
        then have "\<exists>n q. parseValue pf n p = Some (Inl e, q)" by blast
        then show ?thesis unfolding rj Some by (simp only: option.case)
      qed
    qed
  qed
qed

lemma parse_document:
  assumes wf: "wf_json v" and ws: "spaces ws"
    and b: "is_word (hd (tokens v)) \<Longrightarrow> boundary R"
  shows "\<exists>n. Parse pf n (lay ws (tokens v) @ R) = Some (outcome pf v)"
proof -
  define s where "s = lay ws (tokens v) @ R"
  define p0 where "p0 = \<lparr>lexer = NewLexer s, curToken = \<lparr>Type = TokenEOF, Value = [], Pos = 0\<rparr>\<rparr>"
  have "pending (lex_at s 0) (hd (tokens v) # tl (tokens v)) R"
    unfolding pending_def using ws
    by (intro exI [of _ s] exI [of _ 0] exI [of _ ws]) (simp add: s_def)
  then have "pending (lexer p0) (hd (tokens v) # tl (tokens v)) R"
    by (simp add: p0_def NewLexer_lex_at)
  moreover have "follow (tl (tokens v)) R" if "is_word (hd (tokens v))"
    using hd_tokens_word [OF that] b [OF that] by (simp add: follow_def)
  ultimately obtain p where 1: "advance p0 = (None, p)"
      "Type (curToken p) = kind (hd (tokens v))" "Value (curToken p) = payload (hd (tokens v))"
      "pending (lexer p) (tl (tokens v)) R"
    using advance_pending [of p0 "hd (tokens v)" "tl (tokens v)" R] hd_tokens_ok [OF wf]
    by blast
  from 1(1) have "lexer p0 = NewLexer s" by (simp add: p0_def)
  with 1(1) have np: "NewParser s = Inr p"
    by (auto simp: NewParser_def advance_def p0_def split: prod.splits option.splits)
  from 1(4) have pend: "pending (lexer p) (tl (tokens v) @ []) R" by simp
  have "\<exists>n. Parse pf n s = Some (outcome pf v)"
  proof (cases "rejected pf v")
    case None
    from parses_value [OF wf_parses [OF wf] None 1(2,3) pend] obtain n q
      where "parseValue pf n p = Some (Inr (sem pf v), snd (advance q))" by blast
    then have "Parse pf n s = Some (outcome pf v)" by (simp add: Parse_def np outcome_def None)
    then show ?thesis by blast
  next
    case (Some e)
    from parses_error [OF wf_parses [OF wf] Some 1(2,3) pend] obtain n q
      where "parseValue pf n p = Some (Inl e, q)" by blast
    then have "Parse pf n s = Some (outcome pf v)" by (simp add: Parse_def np outcome_def Some)
    then show ?thesis by blast
  qed
  then show ?thesis unfolding s_def .
qed

lemma parse_document_from:
  assumes "wf_json v" "spaces ws" "is_word (hd (tokens v)) \<Longrightarrow> boundary R"
  shows "\<exists>n. \<forall>m\<ge>n. Parse pf m (lay ws (tokens v) @ R) = Some (outcome pf v)"
proof -
  from parse_document [OF assms] obtain n
    where "Parse pf n (lay ws (tokens v) @ R) = Some (outcome pf v)" by blast
  then have "\<forall>m\<ge>n. Parse pf m (lay ws (tokens v) @ R) = Some (outcome pf v)"
    using Parse_mono by blast
  then show ?thesis by blast
qed

lemma ParseFloat_facts:
  "ParseFloat ''1'' = Inr (Decimal 1 0)" "ParseFloat ''2'' = Inr (Decimal 2 0)"
  "ParseFloat ''12'' = Inr (Decimal 12 0)"
  "ParseFloat ''1e400'' = Inl (NumError ''1e400'' ''value out of range'')"
  by code_simp+

section \<open>String values\<close>

lemma lex_e_acute:
  "NextToken (NewLexer [CHR 0x22, CHR 0xC3, CHR 0xA9, CHR 0x22]) =
     ((\<lparr>Type = TokenString, Value = [CHR 0xC3, CHR 0x83, CHR 0xC2, CHR 0xA9], Pos = 0\<rparr>, None),
      lex_at [CHR 0x22, CHR 0xC3, CHR 0xA9, CHR 0x22] 4)"
  by code_simp

text \<open>
  C3. The claim: the String value of a string literal is its decoded text, every escape
  resolved and every other character of the literal carried through as the Unicode scalar it
  denotes. The lexer reads the input byte by byte and appends \<^verbatim>\<open>rune(l.ch)\<close> for each byte, so
  a character that UTF-8 writes with several bytes is not carried through: the literal made
  of the letter e with an acute accent (the bytes C3 A9 between quotes) gives the four bytes
  C3 83 C2 A9.
\<close>

theorem Parse_reencodes_bytes:
  "Parse ParseFloat 1 [CHR 0x22, CHR 0xC3, CHR 0xA9, CHR 0x22]
     = Some (Inr (String [CHR 0xC3, CHR 0x83, CHR 0xC2, CHR 0xA9]))
   \<and> [CHR 0xC3, CHR 0x83, CHR 0xC2, CHR 0xA9] \<noteq> [CHR 0xC3, CHR 0xA9]"
  by (simp add: Parse_def NewParser_def lex_e_acute parseValue.simps(2))

text \<open>
  C3, amended. For every string literal whose characters outside escapes are ASCII characters
  (other than the quote, the backslash and the byte 0) and whose escapes are the eight
  two-character escapes or \<^verbatim>\<open>\u\<close> with four hexadecimal digits, the token that the scanner
  produces, wherever the literal stands in the input, carries the decoded text: each escape
  resolved to its character (a \<^verbatim>\<open>\u\<close> escape to the UTF-8 encoding of its code unit; no
  surrogate pair is combined, and a code unit in the surrogate range gives U+FFFD), each
  other character unchanged. A literal at the start of the input parses to that String. The
  two literals of the claim give \<^verbatim>\<open>Hello\<close> and \<^verbatim>\<open>a"b\<close>.
\<close>

theorem string_literal_decoded:
  assumes "literal_ok items" and "drop k s = CHR 0x22 # body items @ CHR 0x22 # r"
  shows "NextToken (lex_at s k) =
           ((\<lparr>Type = TokenString, Value = decode items, Pos = int k\<rparr>, None),
            lex_at s (k + length (body items) + 2))
         \<and> Parse pf (Suc n) (CHR 0x22 # body items @ CHR 0x22 # r)
             = Some (Inr (String (decode items)))"
proof -
  have tok: "NextToken (lex_at s' k') =
           ((\<lparr>Type = TokenString, Value = decode items, Pos = int k'\<rparr>, None),
            lex_at s' (k' + length (body items) + 2))"
    if "drop k' s' = CHR 0x22 # body items @ CHR 0x22 # r" for s' k'
    using NextToken_spelling [of k' s' "[]" "SString items" r] that
      literal_items_ok [OF assms(1)] literal_decode [OF assms(1)] by simp
  from tok [of 0 "CHR 0x22 # body items @ CHR 0x22 # r"]
  have "Parse pf (Suc n) (CHR 0x22 # body items @ CHR 0x22 # r) = Some (Inr (String (decode items)))"
    by (simp add: Parse_def NewParser_def NewLexer_lex_at parseValue.simps(2))
  with tok [OF assms(2)] show ?thesis by simp
qed

lemma hello_facts:
  "literal_ok hello" "decode hello = ''Hello''"
  "body hello = [CHR 0x5C, CHR ''u'', CHR ''0'', CHR ''0'', CHR ''4'', CHR ''8'',
                 CHR 0x5C, CHR ''u'', CHR ''0'', CHR ''0'', CHR ''6'', CHR ''5'',
                 CHR 0x5C, CHR ''u'', CHR ''0'', CHR ''0'', CHR ''6'', CHR ''C'',
                 CHR 0x5C, CHR ''u'', CHR ''0'', CHR ''0'', CHR ''6'', CHR ''C'',
                 CHR 0x5C, CHR ''u'', CHR ''0'', CHR ''0'', CHR ''6'', CHR ''F'']"
  "literal_ok quoted" "decode quoted = [CHR ''a'', CHR 0x22, CHR ''b'']"
  "body quoted = [CHR ''a'', CHR 0x5C, CHR 0x22, CHR ''b'']"
  by code_simp+

theorem string_literal_decoded_witness:
  "literal_ok hello
   \<and> Parse ParseFloat 1
        [CHR 0x22, CHR 0x5C, CHR ''u'', CHR ''0'', CHR ''0'', CHR ''4'', CHR ''8'',
         CHR 0x5C, CHR ''u'', CHR ''0'', CHR ''0'', CHR ''6'', CHR ''5'',
         CHR 0x5C, CHR ''u'', CHR ''0'', CHR ''0'', CHR ''6'', CHR ''C'',
         CHR 0x5C, CHR ''u'', CHR ''0'', CHR ''0'', CHR ''6'', CHR ''C'',
         CHR 0x5C, CHR ''u'', CHR ''0'', CHR ''0'', CHR ''6'', CHR ''F'', CHR 0x22]
       = Some (Inr (String ''Hello''))
   \<and> literal_ok quoted
   \<and> Parse ParseFloat 1 [CHR 0x22, CHR ''a'', CHR 0x5C, CHR 0x22, CHR ''b'', CHR 0x22]
       = Some (Inr (String [CHR ''a'', CHR 0x22, CHR ''b'']))"
  using string_literal_decoded [OF hello_facts(1), of 0 "CHR 0x22 # body hello @ [CHR 0x22]" "[]" ParseFloat 0]
    string_literal_decoded [OF hello_facts(4), of 0 "CHR 0x22 # body quoted @ [CHR 0x22]" "[]" ParseFloat 0]
  by (simp add: hello_facts)

section \<open>Objects with a repeated key\<close>





lemma spaces_Nil: "spaces []"
  by (simp add: spaces_def)





section \<open>Input after the top-level value\<close>

lemma lex_1e400:
  "NextToken (NewLexer ''1e400 2'') =
     ((\<lparr>Type = TokenNumber, Value = ''1e400'', Pos = 0\<rparr>, None), lex_at ''1e400 2'' 5)"
  by code_simp

text \<open>
  C5. The claim: for every input that consists of a complete top-level JSON value followed
  by further tokens, \<^verbatim>\<open>Parse\<close> returns the value with no error. A number of the value that
  \<^verbatim>\<open>strconv.ParseFloat\<close> does not accept makes \<^verbatim>\<open>Parse\<close> fail, whatever follows the value:
  \<^verbatim>\<open>1e400\<close> is a JSON number beyond the range of a \<^verbatim>\<open>float64\<close>, and on the input
  \<^verbatim>\<open>1e400 2\<close> \<^verbatim>\<open>Parse\<close> returns the range error and no value.
\<close>

theorem trailing_number_out_of_range:
  "wf_json (JNumber (NumLit False ''1'' None (Some (CHR ''e'', [], ''400''))))
   \<and> lay [] (tokens (JNumber (NumLit False ''1'' None (Some (CHR ''e'', [], ''400''))))) @ '' 2''
       = ''1e400 2''
   \<and> Parse ParseFloat 1 ''1e400 2'' = Some (Inl (NumError ''1e400'' ''value out of range''))"
proof -
  have "Parse ParseFloat (Suc 0) ''1e400 2'' = Some (Inl (NumError ''1e400'' ''value out of range''))"
    by (simp add: Parse_def NewParser_def lex_1e400 parseValue.simps(2) ParseFloat_facts)
  moreover have "wf_json (JNumber (NumLit False ''1'' None (Some (CHR ''e'', [], ''400''))))"
    "lay [] (tokens (JNumber (NumLit False ''1'' None (Some (CHR ''e'', [], ''400''))))) @ '' 2''
       = ''1e400 2''"
    by code_simp+
  ultimately show ?thesis by simp
qed

text \<open>
  C5, amended. \<^verbatim>\<open>Parse\<close> does not require the input to end after the top-level value: for
  an input that is a complete JSON value followed by further text \<open>R\<close> (further tokens, as
  in \<^verbatim>\<open>{}[]\<close> and \<^verbatim>\<open>1 2\<close>), it returns what it returns for the value alone, and \<open>R\<close> is
  ignored: the value and no error when \<open>pf\<close> accepts every number of the value, and
  otherwise the error of \<open>pf\<close> for the first number that it rejects. After a value that is
  a number or a keyword, \<open>R\<close> begins with a byte that ends that token, not a digit, a
  letter or a point (\<open>boundary R\<close>); otherwise \<open>R\<close> is any text.
\<close>

theorem trailing_input_ignored:
  assumes "wf_json v" and "spaces ws" and "is_word (hd (tokens v)) \<Longrightarrow> boundary R"
  shows "\<exists>n. \<forall>m\<ge>n. Parse pf m (lay ws (tokens v) @ R) = Some (outcome pf v)
                   \<and> Parse pf m (lay ws (tokens v)) = Some (outcome pf v)"
proof -
  from parse_document_from [OF assms] obtain n
    where 1: "\<forall>m\<ge>n. Parse pf m (lay ws (tokens v) @ R) = Some (outcome pf v)" by blast
  have "boundary []" by (simp add: boundary_def)
  from parse_document_from [OF assms(1,2) this] obtain n'
    where 2: "\<forall>m\<ge>n'. Parse pf m (lay ws (tokens v)) = Some (outcome pf v)" by auto
  from 1 2 have "\<forall>m\<ge>max n n'. Parse pf m (lay ws (tokens v) @ R) = Some (outcome pf v)
                   \<and> Parse pf m (lay ws (tokens v)) = Some (outcome pf v)" by simp
  then show ?thesis by blast
qed

lemma trailing_facts:
  "wf_json (JObject [])" "wf_json (JNumber (NumLit False ''1'' None None))"
  "boundary '' 2''"
  "lay [] (tokens (JObject [])) = ''{}''"
  "lay [] (tokens (JNumber (NumLit False ''1'' None None))) = ''1''"
  "wf_json (JNumber (NumLit False ''1'' None (Some (CHR ''e'', [], ''400''))))"
  "lay [] (tokens (JNumber (NumLit False ''1'' None (Some (CHR ''e'', [], ''400''))))) = ''1e400''"
  by code_simp+

theorem trailing_input_ignored_witness:
  "wf_json (JObject []) \<and> wf_json (JNumber (NumLit False ''1'' None None))
   \<and> boundary '' 2''
   \<and> (\<exists>n. Parse ParseFloat n ''{}[]'' = Some (Inr (Object Map.empty))
          \<and> Parse ParseFloat n ''{}'' = Some (Inr (Object Map.empty)))
   \<and> (\<exists>n. Parse ParseFloat n ''1 2'' = Some (Inr (Number (Decimal 1 0)))
          \<and> Parse ParseFloat n ''1'' = Some (Inr (Number (Decimal 1 0))))
   \<and> (\<exists>n. Parse ParseFloat n ''1e400 2'' = Some (Inl (NumError ''1e400'' ''value out of range''))
          \<and> Parse ParseFloat n ''1e400'' = Some (Inl (NumError ''1e400'' ''value out of range'')))"
proof -
  have 1: "\<exists>n. Parse ParseFloat n ''{}[]'' = Some (Inr (Object Map.empty))
          \<and> Parse ParseFloat n ''{}'' = Some (Inr (Object Map.empty))"
    using trailing_input_ignored [OF trailing_facts(1) spaces_Nil, of "''[]''" ParseFloat]
    by (auto simp: trailing_facts(4) outcome_def)
  have 2: "\<exists>n. Parse ParseFloat n ''1 2'' = Some (Inr (Number (Decimal 1 0)))
          \<and> Parse ParseFloat n ''1'' = Some (Inr (Number (Decimal 1 0)))"
    using trailing_input_ignored [OF trailing_facts(2) spaces_Nil, of "'' 2''" ParseFloat]
      trailing_facts(3)
    by (auto simp: trailing_facts(5) outcome_def ParseFloat_facts)
  have 3: "\<exists>n. Parse ParseFloat n ''1e400 2'' = Some (Inl (NumError ''1e400'' ''value out of range''))
          \<and> Parse ParseFloat n ''1e400'' = Some (Inl (NumError ''1e400'' ''value out of range''))"
    using trailing_input_ignored [OF trailing_facts(6) spaces_Nil, of "'' 2''" ParseFloat]
      trailing_facts(3)
    by (auto simp: trailing_facts(7) outcome_def ParseFloat_facts)
  from 1 2 3 trailing_facts show ?thesis by blast
qed

section \<open>Whitespace between tokens\<close>










lemma same_None [simp]: "same None None"
  by (simp add: same_def)

lemma same_Some [simp]: "same (Some (r, q)) (Some (r', q')) \<longleftrightarrow> r = r' \<and> sim q q'"
  by (auto simp: same_def)












end
